theory Spec2Isabelle
  imports Main "HOL-Library.Word" "HOL-Library.Signed_Division"
begin

unbundle bit_operations_syntax

section \<open>Machine types of \<^verbatim>\<open>hello.c\<close>\<close>

text \<open>
  \<^verbatim>\<open>int8_t\<close> and \<^verbatim>\<open>uint8_t\<close> are both 8-bit words, \<^verbatim>\<open>int32_t\<close> and
  \<^verbatim>\<open>uint32_t\<close> both 32-bit words: the signedness of a C object is in how it is read
  (\<open>scast\<close>/\<open>sint\<close> sign-extend, \<open>ucast\<close>/\<open>uint\<close> zero-extend) and compared
  (\<open><s\<close> is the signed order). Arithmetic on words wraps modulo \<open>2 ^ 32\<close>.
  Signed overflow is undefined in C; where a property says that none occurs, the
  theorem states the value over the integers. Array indices, loop counters and sizes
  (\<^verbatim>\<open>int\<close> in the source, never negative in any call, and far below \<open>2 ^ 31\<close> for
  arrays that fit the address space) are \<open>nat\<close>. An array is a list; every theorem
  about a function that writes through a pointer assumes the list long enough for the
  writes, since an update beyond the end of a list changes nothing.
\<close>

type_synonym i8 = "8 word"
type_synonym u8 = "8 word"
type_synonym i32 = "32 word"
type_synonym u32 = "32 word"
type_synonym u64 = "64 word"

section \<open>Constants of the network\<close>

text \<open>
  \<^verbatim>\<open>hello.c\<close> includes \<^verbatim>\<open>mnist_weights_int8.h\<close>, which is not among the sources. Its
  macros (\<^verbatim>\<open>INPUT_SIZE\<close>, \<^verbatim>\<open>HIDDEN_SIZE\<close>, \<^verbatim>\<open>OUTPUT_SIZE\<close>, \<^verbatim>\<open>H_DIV\<close>,
  \<^verbatim>\<open>NUM_TEST_IMAGES\<close>) and tables (weights, biases, test images and labels) are the
  fields of a parameter record; weight matrices are flat, row-major, as the source
  indexes them (\<^verbatim>\<open>W[r*cols+c]\<close>).
\<close>

record net_params =
  INPUT_SIZE :: nat
  HIDDEN_SIZE :: nat
  OUTPUT_SIZE :: nat
  H_DIV :: i32
  w1_int8 :: "i8 list"
  b1_int32 :: "i32 list"
  w2_int8 :: "i8 list"
  b2_int32 :: "i32 list"
  NUM_TEST_IMAGES :: nat
  test_images :: "u8 list list"
  test_labels :: "i32 list"

text \<open>The file-scope buffers \<^verbatim>\<open>hidden_acc\<close>, \<^verbatim>\<open>hidden_act\<close>, \<^verbatim>\<open>output_acc\<close>.\<close>

record statics =
  hidden_acc :: "i32 list"
  hidden_act :: "i8 list"
  output_acc :: "i32 list"

section \<open>Pure CPU implementation\<close>

text \<open>
  \<^verbatim>\<open>
  static void cpu_mv_u8(const int8_t *W, const uint8_t *inp, int32_t *out, int rows, int cols) {
      for (int r = 0; r < rows; r++) {
          int32_t acc = 0;
          for (int c = 0; c < cols; c++)
              acc += (int32_t)W[r*cols+c] * (int32_t)inp[c];
          out[r] = acc;
      }
  }
  \<close>
  \<^verbatim>\<open>cpu_mv_i8\<close> is the same text with \<^verbatim>\<open>const int8_t *inp\<close>: the input byte is
  sign-extended instead of zero-extended.
\<close>

definition cpu_row_u8 :: "i8 list \<Rightarrow> u8 list \<Rightarrow> nat \<Rightarrow> nat \<Rightarrow> i32" where
  "cpu_row_u8 W inp cols r =
     fold (\<lambda>c acc. acc + scast (W ! (r * cols + c)) * ucast (inp ! c)) [0..<cols] 0"

definition cpu_mv_u8 :: "i8 list \<Rightarrow> u8 list \<Rightarrow> i32 list \<Rightarrow> nat \<Rightarrow> nat \<Rightarrow> i32 list" where
  "cpu_mv_u8 W inp out rows cols =
     fold (\<lambda>r out. out[r := cpu_row_u8 W inp cols r]) [0..<rows] out"

definition cpu_row_i8 :: "i8 list \<Rightarrow> i8 list \<Rightarrow> nat \<Rightarrow> nat \<Rightarrow> i32" where
  "cpu_row_i8 W inp cols r =
     fold (\<lambda>c acc. acc + scast (W ! (r * cols + c)) * scast (inp ! c)) [0..<cols] 0"

definition cpu_mv_i8 :: "i8 list \<Rightarrow> i8 list \<Rightarrow> i32 list \<Rightarrow> nat \<Rightarrow> nat \<Rightarrow> i32 list" where
  "cpu_mv_i8 W inp out rows cols =
     fold (\<lambda>r out. out[r := cpu_row_i8 W inp cols r]) [0..<rows] out"

section \<open>Class selection\<close>

text \<open>
  \<^verbatim>\<open>
  static int argmax(const int32_t *a, int n) {
      int best = 0;
      for (int i = 1; i < n; i++)
          if (a[i] > a[best]) best = i;
      return best;
  }
  \<close>
\<close>

definition argmax_step :: "i32 list \<Rightarrow> nat \<Rightarrow> nat \<Rightarrow> nat" where
  "argmax_step a i best = (if a ! best <s a ! i then i else best)"

definition argmax :: "i32 list \<Rightarrow> nat \<Rightarrow> nat" where
  "argmax a n = fold (argmax_step a) [1..<n] 0"

section \<open>Hidden-layer post-processing\<close>

text \<open>
  The loop body shared by \<^verbatim>\<open>infer_cpu\<close> and \<^verbatim>\<open>infer_imc\<close>:
  \<^verbatim>\<open>
      int32_t v = hidden_acc[i] + b1_int32[i];
      if (v < 0) v = 0;
      v /= H_DIV;
      hidden_act[i] = (v > 127) ? (int8_t)127 : (int8_t)v;
  \<close>
  C division truncates towards zero (\<open>sdiv\<close> on \<open>int\<close>); a zero divisor is undefined
  in C and is the value \<open>None\<close> here. The cast \<^verbatim>\<open>(int8_t)v\<close> keeps the low 8 bits.
\<close>

definition c_div :: "i32 \<Rightarrow> i32 \<Rightarrow> i32 option" where
  "c_div a b = (if b = 0 then None else Some (word_of_int (sint a sdiv sint b)))"

definition hidden_post :: "i32 \<Rightarrow> i32 \<Rightarrow> i32 \<Rightarrow> i8 option" where
  "hidden_post hdiv acc b =
     (let v = acc + b;
          v = (if v <s 0 then 0 else v)
      in case c_div v hdiv of
           None \<Rightarrow> None
         | Some v \<Rightarrow> Some (if 127 <s v then 127 else ucast v))"

definition hidden_layer_post :: "net_params \<Rightarrow> i32 list \<Rightarrow> i8 list \<Rightarrow> i8 list option" where
  "hidden_layer_post P acc act =
     fold (\<lambda>i st. case st of
                     None \<Rightarrow> None
                   | Some act \<Rightarrow>
                       (case hidden_post (H_DIV P) (acc ! i) (b1_int32 P ! i) of
                          None \<Rightarrow> None
                        | Some h \<Rightarrow> Some (act[i := h])))
          [0..<HIDDEN_SIZE P] (Some act)"

text \<open>\<^verbatim>\<open>for (int i = 0; i < OUTPUT_SIZE; i++) output_acc[i] += b2_int32[i];\<close>\<close>

definition output_bias :: "net_params \<Rightarrow> i32 list \<Rightarrow> i32 list" where
  "output_bias P out =
     fold (\<lambda>i out. out[i := out ! i + b2_int32 P ! i]) [0..<OUTPUT_SIZE P] out"

text \<open>
  \<^verbatim>\<open>
  static int infer_cpu(const uint8_t *img) {
      cpu_mv_u8(w1_int8, img, hidden_acc, HIDDEN_SIZE, INPUT_SIZE);
      for (...) { ... }                       // hidden_layer_post
      cpu_mv_i8(w2_int8, hidden_act, output_acc, OUTPUT_SIZE, HIDDEN_SIZE);
      for (...) output_acc[i] += b2_int32[i];
      return argmax(output_acc, OUTPUT_SIZE);
  }
  \<close>
\<close>

definition infer_cpu :: "net_params \<Rightarrow> u8 list \<Rightarrow> statics \<Rightarrow> (nat \<times> statics) option" where
  "infer_cpu P img st =
     (let hacc = cpu_mv_u8 (w1_int8 P) img (hidden_acc st) (HIDDEN_SIZE P) (INPUT_SIZE P)
      in case hidden_layer_post P hacc (hidden_act st) of
           None \<Rightarrow> None
         | Some hact \<Rightarrow>
             (let oacc = cpu_mv_i8 (w2_int8 P) hact (output_acc st) (OUTPUT_SIZE P) (HIDDEN_SIZE P);
                  oacc = output_bias P oacc
              in Some (argmax oacc (OUTPUT_SIZE P),
                       \<lparr>hidden_acc = hacc, hidden_act = hact, output_acc = oacc\<rparr>)))"

section \<open>The accelerator behind the \<^verbatim>\<open>IMC_*\<close> registers\<close>

text \<open>
  Modelled from the spec: the device mapped at \<^verbatim>\<open>0x400..0x42C\<close> is hardware of the
  repository that is not among the sources. The spec (sections 4.1 and 6) gives its
  interface: a program port taking (conductance value, cell index) pairs over a flat
  0..63 cell space of unsigned 8-bit conductances; two 32-bit input ports packing the
  8 unsigned input bytes, four per word, little-endian; eight 32-bit result ports with
  \<open>raw[r] = \<Sum>c. conductance[r][c] * input[c]\<close>. The source writes
  \<^verbatim>\<open>IMC_PROG_DATA\<close> and then \<^verbatim>\<open>IMC_PROG_ADDR\<close>: the address write stores the latched
  data in the addressed cell.
\<close>

record imc_dev =
  prog_data :: u32
  cells :: "nat \<Rightarrow> u8"
  v_input_lo :: u32
  v_input_hi :: u32

text \<open>
  Modelled from the spec: the spec does not give the power-on contents of the device;
  every tile operation reprograms all 64 cells and both input words before it reads.
  A zeroed device is the state used for concrete runs.
\<close>

definition imc_reset :: imc_dev where
  "imc_reset = \<lparr>prog_data = 0, cells = (\<lambda>_. 0), v_input_lo = 0, v_input_hi = 0\<rparr>"

text \<open>
  Modelled from the spec: the write ports of the device, which is not among the
  sources. A write to the data port latches the value; a write to the address port
  programs the addressed cell with the low 8 bits of the latched value; the two input
  ports hold the words last written.
\<close>

definition write_IMC_PROG_DATA :: "u32 \<Rightarrow> imc_dev \<Rightarrow> imc_dev" where
  "write_IMC_PROG_DATA x d = d\<lparr>prog_data := x\<rparr>"

definition write_IMC_PROG_ADDR :: "u32 \<Rightarrow> imc_dev \<Rightarrow> imc_dev" where
  "write_IMC_PROG_ADDR a d = d\<lparr>cells := (cells d)(unat a := ucast (prog_data d))\<rparr>"

definition write_IMC_V_INPUT_LO :: "u32 \<Rightarrow> imc_dev \<Rightarrow> imc_dev" where
  "write_IMC_V_INPUT_LO x d = d\<lparr>v_input_lo := x\<rparr>"

definition write_IMC_V_INPUT_HI :: "u32 \<Rightarrow> imc_dev \<Rightarrow> imc_dev" where
  "write_IMC_V_INPUT_HI x d = d\<lparr>v_input_hi := x\<rparr>"

text \<open>
  Modelled from the spec: the read-back of the device, which is not among the sources.
  Input byte \<open>c\<close> is byte \<open>c\<close> of the low input word for \<open>c < 4\<close> and byte \<open>c - 4\<close> of
  the high one otherwise (little-endian); result port \<open>r\<close> reads
  \<open>\<Sum>c<8. conductance[r][c] * input[c]\<close> as a 32-bit value.
\<close>

definition input_byte :: "imc_dev \<Rightarrow> nat \<Rightarrow> u8" where
  "input_byte d c =
     (if c < 4 then ucast (drop_bit (8 * c) (v_input_lo d))
      else ucast (drop_bit (8 * (c - 4)) (v_input_hi d)))"

definition IMC_RESULT :: "imc_dev \<Rightarrow> nat \<Rightarrow> u32" where
  "IMC_RESULT d r =
     sum_list (map (\<lambda>c. ucast (cells d (r * 8 + c)) * ucast (input_byte d c)) [0..<8])"

section \<open>ReRAM IMC implementation\<close>

text \<open>
  \<^verbatim>\<open>imc_tile_mac\<close>, first loop (program tile):
  \<^verbatim>\<open>
      for (int r = 0; r < 8; r++) {
          int w_row = r_start + r;
          for (int c = 0; c < 8; c++) {
              int w_col = c_start + c;
              uint32_t g_val = 128;
              if (w_row < rows && w_col < cols) g_val = (uint32_t)(W[w_row * cols + w_col] + 128);
              IMC_PROG_DATA = g_val;
              IMC_PROG_ADDR = (r * 8) + c;
          }
      }
  \<close>
\<close>

definition conductance :: "i8 \<Rightarrow> u32" where
  "conductance w = scast w + 128"

definition g_val :: "i8 list \<Rightarrow> nat \<Rightarrow> nat \<Rightarrow> nat \<Rightarrow> nat \<Rightarrow> nat \<Rightarrow> nat \<Rightarrow> u32" where
  "g_val W rows cols r_start c_start r c =
     (let w_row = r_start + r; w_col = c_start + c
      in if w_row < rows \<and> w_col < cols then conductance (W ! (w_row * cols + w_col)) else 128)"

definition program_cell ::
  "i8 list \<Rightarrow> nat \<Rightarrow> nat \<Rightarrow> nat \<Rightarrow> nat \<Rightarrow> nat \<Rightarrow> nat \<Rightarrow> imc_dev \<Rightarrow> imc_dev" where
  "program_cell W rows cols r_start c_start r c d =
     write_IMC_PROG_ADDR (of_nat (r * 8 + c))
       (write_IMC_PROG_DATA (g_val W rows cols r_start c_start r c) d)"

definition program_row ::
  "i8 list \<Rightarrow> nat \<Rightarrow> nat \<Rightarrow> nat \<Rightarrow> nat \<Rightarrow> nat \<Rightarrow> imc_dev \<Rightarrow> imc_dev" where
  "program_row W rows cols r_start c_start r d =
     fold (program_cell W rows cols r_start c_start r) [0..<8] d"

definition program_tile ::
  "i8 list \<Rightarrow> nat \<Rightarrow> nat \<Rightarrow> nat \<Rightarrow> nat \<Rightarrow> imc_dev \<Rightarrow> imc_dev" where
  "program_tile W rows cols r_start c_start d =
     fold (program_row W rows cols r_start c_start) [0..<8] d"

text \<open>
  Second part (set inputs):
  \<^verbatim>\<open>
      uint8_t v[8] = {0};
      uint32_t sum_v = 0;
      for(int c = 0; c < 8; c++) {
          if((c_start + c) < cols) {
              v[c] = inp[c_start + c];
              sum_v += v[c];
          }
      }
      IMC_V_INPUT_LO = (v[0]) | (v[1] << 8) | (v[2] << 16) | (v[3] << 24);
      IMC_V_INPUT_HI = (v[4]) | (v[5] << 8) | (v[6] << 16) | (v[7] << 24);
  \<close>
  The shifts are taken on 32-bit words. The settle delay that follows
  (\<^verbatim>\<open>for(volatile int d=0; d<10; d++);\<close>) changes no program variable and no register.
\<close>

definition load_input :: "u8 list \<Rightarrow> nat \<Rightarrow> nat \<Rightarrow> nat \<Rightarrow> u8 list \<times> u32 \<Rightarrow> u8 list \<times> u32" where
  "load_input inp cols c_start c = (\<lambda>(v, sum_v).
     if c_start + c < cols
     then (let v = v[c := inp ! (c_start + c)] in (v, sum_v + ucast (v ! c)))
     else (v, sum_v))"

definition load_inputs :: "u8 list \<Rightarrow> nat \<Rightarrow> nat \<Rightarrow> u8 list \<times> u32" where
  "load_inputs inp cols c_start = fold (load_input inp cols c_start) [0..<8] (replicate 8 0, 0)"

definition pack4 :: "u8 \<Rightarrow> u8 \<Rightarrow> u8 \<Rightarrow> u8 \<Rightarrow> u32" where
  "pack4 b0 b1 b2 b3 =
     ucast b0 OR push_bit 8 (ucast b1) OR push_bit 16 (ucast b2) OR push_bit 24 (ucast b3)"

definition drive_inputs :: "u8 list \<Rightarrow> imc_dev \<Rightarrow> imc_dev" where
  "drive_inputs v d =
     write_IMC_V_INPUT_HI (pack4 (v ! 4) (v ! 5) (v ! 6) (v ! 7))
       (write_IMC_V_INPUT_LO (pack4 (v ! 0) (v ! 1) (v ! 2) (v ! 3)) d)"

text \<open>
  Third loop (read and correct):
  \<^verbatim>\<open>
      for (int r = 0; r < 8; r++) {
          int w_row = r_start + r;
          if (w_row < rows) {
              uint32_t raw_current = IMC_RESULT(r);
              int32_t true_mac = (int32_t)raw_current - (128 * (int32_t)sum_v);
              out[w_row] += true_mac;
          }
      }
  \<close>
\<close>

definition true_mac :: "u32 \<Rightarrow> u32 \<Rightarrow> i32" where
  "true_mac raw_current sum_v = raw_current - 128 * sum_v"

definition read_correct_row :: "imc_dev \<Rightarrow> nat \<Rightarrow> nat \<Rightarrow> u32 \<Rightarrow> nat \<Rightarrow> i32 list \<Rightarrow> i32 list" where
  "read_correct_row d rows r_start sum_v r out =
     (let w_row = r_start + r
      in if w_row < rows
         then out[w_row := out ! w_row + true_mac (IMC_RESULT d r) sum_v]
         else out)"

definition read_correct :: "imc_dev \<Rightarrow> nat \<Rightarrow> nat \<Rightarrow> u32 \<Rightarrow> i32 list \<Rightarrow> i32 list" where
  "read_correct d rows r_start sum_v out =
     fold (read_correct_row d rows r_start sum_v) [0..<8] out"

definition tile_device ::
  "i8 list \<Rightarrow> nat \<Rightarrow> nat \<Rightarrow> u8 list \<Rightarrow> nat \<Rightarrow> nat \<Rightarrow> imc_dev \<Rightarrow> imc_dev" where
  "tile_device W rows cols inp r_start c_start d =
     drive_inputs (fst (load_inputs inp cols c_start)) (program_tile W rows cols r_start c_start d)"

definition imc_tile_mac ::
  "i8 list \<Rightarrow> nat \<Rightarrow> nat \<Rightarrow> u8 list \<Rightarrow> nat \<Rightarrow> nat \<Rightarrow> i32 list \<times> imc_dev \<Rightarrow> i32 list \<times> imc_dev" where
  "imc_tile_mac W rows cols inp r_start c_start = (\<lambda>(out, d).
     (let d = tile_device W rows cols inp r_start c_start d;
          sum_v = snd (load_inputs inp cols c_start)
      in (read_correct d rows r_start sum_v out, d)))"

text \<open>
  \<^verbatim>\<open>
  static void imc_layer_execution(const int8_t *W, const uint8_t *inp, int32_t *out, int rows, int cols) {
      for (int r = 0; r < rows; r++) out[r] = 0;
      for (int cs = 0; cs < cols; cs += 8)
          for (int rs = 0; rs < rows; rs += 8)
              imc_tile_mac(W, rows, cols, inp, out, rs, cs);
  }
  \<close>
\<close>

function imc_row_loop ::
  "i8 list \<Rightarrow> nat \<Rightarrow> nat \<Rightarrow> u8 list \<Rightarrow> nat \<Rightarrow> nat \<Rightarrow> i32 list \<times> imc_dev \<Rightarrow> i32 list \<times> imc_dev" where
  "imc_row_loop W rows cols inp cs rs s =
     (if rs < rows
      then imc_row_loop W rows cols inp cs (rs + 8) (imc_tile_mac W rows cols inp rs cs s)
      else s)"
  by pat_completeness auto
termination
  by (relation "measure (\<lambda>(W, rows, cols, inp, cs, rs, s). rows - rs)") auto

declare imc_row_loop.simps [simp del]

function imc_col_loop ::
  "i8 list \<Rightarrow> nat \<Rightarrow> nat \<Rightarrow> u8 list \<Rightarrow> nat \<Rightarrow> i32 list \<times> imc_dev \<Rightarrow> i32 list \<times> imc_dev" where
  "imc_col_loop W rows cols inp cs s =
     (if cs < cols
      then imc_col_loop W rows cols inp (cs + 8) (imc_row_loop W rows cols inp cs 0 s)
      else s)"
  by pat_completeness auto
termination
  by (relation "measure (\<lambda>(W, rows, cols, inp, cs, s). cols - cs)") auto

declare imc_col_loop.simps [simp del]

definition clear_out :: "nat \<Rightarrow> i32 list \<Rightarrow> i32 list" where
  "clear_out rows out = fold (\<lambda>r out. out[r := 0]) [0..<rows] out"

definition imc_layer_execution ::
  "i8 list \<Rightarrow> u8 list \<Rightarrow> i32 list \<Rightarrow> nat \<Rightarrow> nat \<Rightarrow> imc_dev \<Rightarrow> i32 list \<times> imc_dev" where
  "imc_layer_execution W inp out rows cols d =
     imc_col_loop W rows cols inp 0 (clear_out rows out, d)"

text \<open>
  \<^verbatim>\<open>
  static int infer_imc(const uint8_t *img) {
      imc_layer_execution(w1_int8, img, hidden_acc, HIDDEN_SIZE, INPUT_SIZE);
      for (...) { ... }                       // hidden_layer_post
      imc_layer_execution(w2_int8, (const uint8_t*)hidden_act, output_acc, OUTPUT_SIZE, HIDDEN_SIZE);
      for (...) output_acc[i] += b2_int32[i];
      return argmax(output_acc, OUTPUT_SIZE);
  }
  \<close>
  The pointer cast \<^verbatim>\<open>(const uint8_t*)hidden_act\<close> passes the same bytes; the callee
  zero-extends them.
\<close>

definition infer_imc ::
  "net_params \<Rightarrow> u8 list \<Rightarrow> statics \<times> imc_dev \<Rightarrow> (nat \<times> statics \<times> imc_dev) option" where
  "infer_imc P img = (\<lambda>(st, d).
     (let (hacc, d) = imc_layer_execution (w1_int8 P) img (hidden_acc st)
                        (HIDDEN_SIZE P) (INPUT_SIZE P) d
      in case hidden_layer_post P hacc (hidden_act st) of
           None \<Rightarrow> None
         | Some hact \<Rightarrow>
             (let (oacc, d) = imc_layer_execution (w2_int8 P) hact (output_acc st)
                                (OUTPUT_SIZE P) (HIDDEN_SIZE P) d;
                  oacc = output_bias P oacc
              in Some (argmax oacc (OUTPUT_SIZE P),
                       \<lparr>hidden_acc = hacc, hidden_act = hact, output_acc = oacc\<rparr>, d))))"

section \<open>Reference quantities\<close>

text \<open>
  The quantities the tile computations are compared with. \<open>padded_input\<close> is the
  content of \<^verbatim>\<open>v[c]\<close> after the input loop. \<open>tile_dot_int\<close> is the signed dot product,
  over the integers, of the in-bounds weights of tile row \<open>r\<close> with the inputs, and
  \<open>tile_dot\<close> the same sum in 32-bit arithmetic. \<open>dot_range\<close> is the part of the
  dot product of matrix row \<open>i\<close> over the columns \<open>lo..<hi\<close>.
\<close>

definition padded_input :: "u8 list \<Rightarrow> nat \<Rightarrow> nat \<Rightarrow> nat \<Rightarrow> u8" where
  "padded_input inp cols c_start c = (if c_start + c < cols then inp ! (c_start + c) else 0)"

definition tile_dot_int :: "i8 list \<Rightarrow> u8 list \<Rightarrow> nat \<Rightarrow> nat \<Rightarrow> nat \<Rightarrow> nat \<Rightarrow> nat \<Rightarrow> int" where
  "tile_dot_int W inp rows cols r_start c_start r =
     sum_list (map (\<lambda>c. if r_start + r < rows \<and> c_start + c < cols
                         then sint (W ! ((r_start + r) * cols + (c_start + c))) *
                              uint (inp ! (c_start + c))
                         else 0) [0..<8])"

definition tile_dot :: "i8 list \<Rightarrow> u8 list \<Rightarrow> nat \<Rightarrow> nat \<Rightarrow> nat \<Rightarrow> nat \<Rightarrow> nat \<Rightarrow> i32" where
  "tile_dot W inp rows cols r_start c_start r =
     sum_list (map (\<lambda>c. if r_start + r < rows \<and> c_start + c < cols
                         then scast (W ! ((r_start + r) * cols + (c_start + c))) *
                              ucast (inp ! (c_start + c))
                         else 0) [0..<8])"

definition dot_range :: "i8 list \<Rightarrow> u8 list \<Rightarrow> nat \<Rightarrow> nat \<Rightarrow> nat \<Rightarrow> nat \<Rightarrow> i32" where
  "dot_range W inp cols i lo hi =
     sum_list (map (\<lambda>c. scast (W ! (i * cols + c)) * ucast (inp ! c)) [lo..<hi])"

text \<open>
  The hidden-layer post-processing in the spec's words, over the integers: add the
  bias (in 32 bits), clip negative values to zero, divide by the divisor truncating
  towards zero (\<open>post_quotient\<close>); then clamp above at 127 and store 8 bits
  (\<open>hidden_val\<close>).
\<close>

definition post_quotient :: "i32 \<Rightarrow> i32 \<Rightarrow> i32 \<Rightarrow> int" where
  "post_quotient hdiv acc b = max 0 (sint (acc + b)) sdiv sint hdiv"

definition hidden_val :: "i32 \<Rightarrow> i32 \<Rightarrow> i32 \<Rightarrow> i8" where
  "hidden_val hdiv acc b =
     (if 127 < post_quotient hdiv acc b then 127 else word_of_int (post_quotient hdiv acc b))"

text \<open>The three buffers have their declared sizes.\<close>

definition wf_statics :: "net_params \<Rightarrow> statics \<Rightarrow> bool" where
  "wf_statics P st \<longleftrightarrow>
     length (hidden_acc st) = HIDDEN_SIZE P \<and> length (hidden_act st) = HIDDEN_SIZE P \<and>
     length (output_acc st) = OUTPUT_SIZE P"

text \<open>
  A file-scope array without initialiser starts zeroed. \<open>tiny_params\<close> is a two-input,
  one-hidden-unit, two-class network with one test image, used for concrete runs.
\<close>

definition init_statics :: "net_params \<Rightarrow> statics" where
  "init_statics P = \<lparr>hidden_acc = replicate (HIDDEN_SIZE P) 0,
     hidden_act = replicate (HIDDEN_SIZE P) 0, output_acc = replicate (OUTPUT_SIZE P) 0\<rparr>"

definition tiny_params :: net_params where
  "tiny_params = \<lparr>INPUT_SIZE = 2, HIDDEN_SIZE = 1, OUTPUT_SIZE = 2, H_DIV = 4,
     w1_int8 = [3, - 1], b1_int32 = [5], w2_int8 = [2, - 3], b2_int32 = [1, 0],
     NUM_TEST_IMAGES = 1, test_images = [[10, 7]], test_labels = [0]\<rparr>"

section \<open>Formatted output\<close>

text \<open>
  \<^verbatim>\<open>printf\<close> is the C library's and reaches the UART through \<^verbatim>\<open>_write\<close>
  (\<^verbatim>\<open>syscalls.c\<close>), one byte per store to address \<^verbatim>\<open>0x100\<close>. The conversions used by
  \<^verbatim>\<open>hello.c\<close> are \<^verbatim>\<open>%d\<close>, \<^verbatim>\<open>%u\<close>, \<^verbatim>\<open>%s\<close> and the left-justified minimum
  widths \<^verbatim>\<open>%-5s\<close>, \<^verbatim>\<open>%-8s\<close>, \<^verbatim>\<open>%-12s\<close>, \<^verbatim>\<open>%-12u\<close>, with the meaning the C
  standard gives them.
\<close>

definition digit_char :: "nat \<Rightarrow> char" where
  "digit_char k = char_of (48 + k)"

function dec_nat :: "nat \<Rightarrow> string" where
  "dec_nat n = (if n < 10 then [digit_char n] else dec_nat (n div 10) @ [digit_char (n mod 10)])"
  by pat_completeness auto
termination
  by (relation "measure id") auto

declare dec_nat.simps [simp del]

definition fmt_u :: "u32 \<Rightarrow> string" where
  "fmt_u x = dec_nat (unat x)"

definition fmt_d :: "i32 \<Rightarrow> string" where
  "fmt_d x = (if x <s 0 then CHR ''-'' # dec_nat (nat (- sint x)) else dec_nat (nat (sint x)))"

definition pad_right :: "nat \<Rightarrow> string \<Rightarrow> string" where
  "pad_right w s = s @ replicate (w - length s) CHR '' ''"

section \<open>The benchmark loop of \<^verbatim>\<open>hello.c\<close>\<close>

text \<open>
  \<^verbatim>\<open>CYCLE_CTR\<close> is a hardware register: its \<open>k\<close>-th read during the run returns
  \<open>clock k\<close>, a parameter. The state of \<^verbatim>\<open>main\<close> is its local variables, the file-scope
  buffers, the device, the number of counter reads so far and the bytes printed so far.
\<close>

record bench =
  total_cpu_cycles :: u32
  total_imc_cycles :: u32
  cpu_correct :: i32
  imc_correct :: i32
  mem :: statics
  dev :: imc_dev
  reads :: nat
  printed :: string

definition read_cycles :: "(nat \<Rightarrow> u32) \<Rightarrow> bench \<Rightarrow> u32 \<times> bench" where
  "read_cycles clock b = (clock (reads b), b\<lparr>reads := Suc (reads b)\<rparr>)"

definition banner :: string where
  "banner = [CHR 0x0A] @ ''========================================================'' @ [CHR 0x0A] @ '' CPU vs ReRAM IMC (8x8) Inference Benchmark'' @ [CHR 0x0A] @ ''========================================================'' @ [CHR 0x0A] @ [CHR 0x0A]"

definition table_header :: string where
  "table_header =
     pad_right 5 ''Image'' @ '' | '' @ pad_right 5 ''Label'' @ '' | '' @
     pad_right 12 ''CPU Cycles'' @ '' | '' @ pad_right 12 ''IMC Cycles'' @ '' | '' @
     pad_right 8 ''Match?'' @ [CHR 0x0A] @
     ''--------------------------------------------------------'' @ [CHR 0x0A]"

text \<open>
  \<^verbatim>\<open>
  printf("  %d   |   %d   | %-12u | %-12u | %s\n",
         d, label, cpu_cyc, imc_cyc, (pred_cpu == pred_imc) ? "YES" : "NO");
  \<close>
\<close>

definition table_row :: "nat \<Rightarrow> i32 \<Rightarrow> u32 \<Rightarrow> u32 \<Rightarrow> bool \<Rightarrow> string" where
  "table_row d label cpu_cyc imc_cyc match =
     ''  '' @ fmt_d (of_nat d) @ ''   |   '' @ fmt_d label @ ''   | '' @
     pad_right 12 (fmt_u cpu_cyc) @ '' | '' @ pad_right 12 (fmt_u imc_cyc) @ '' | '' @
     (if match then ''YES'' else ''NO'') @ [CHR 0x0A]"

text \<open>
  The body of the loop over the test images:
  \<^verbatim>\<open>
      int label = test_labels[d];
      uint32_t t0 = read_cycles();
      int pred_cpu = infer_cpu(test_images[d]);
      uint32_t cpu_cyc = read_cycles() - t0;
      t0 = read_cycles();
      int pred_imc = infer_imc(test_images[d]);
      uint32_t imc_cyc = read_cycles() - t0;
      total_cpu_cycles += cpu_cyc;
      total_imc_cycles += imc_cyc;
      if (pred_cpu == label) cpu_correct++;
      if (pred_imc == label) imc_correct++;
      printf(...);
  \<close>
\<close>

definition bench_image :: "net_params \<Rightarrow> (nat \<Rightarrow> u32) \<Rightarrow> nat \<Rightarrow> bench \<Rightarrow> bench option" where
  "bench_image P clock d b =
     (let label = test_labels P ! d;
          (t0, b) = read_cycles clock b
      in case infer_cpu P (test_images P ! d) (mem b) of
           None \<Rightarrow> None
         | Some (pred_cpu, m) \<Rightarrow>
             (let b = b\<lparr>mem := m\<rparr>;
                  (t1, b) = read_cycles clock b;
                  cpu_cyc = t1 - t0;
                  (t0, b) = read_cycles clock b
              in case infer_imc P (test_images P ! d) (mem b, dev b) of
                   None \<Rightarrow> None
                 | Some (pred_imc, m, dv) \<Rightarrow>
                     (let b = b\<lparr>mem := m, dev := dv\<rparr>;
                          (t1, b) = read_cycles clock b;
                          imc_cyc = t1 - t0
                      in Some (b\<lparr>total_cpu_cycles := total_cpu_cycles b + cpu_cyc,
                                 total_imc_cycles := total_imc_cycles b + imc_cyc,
                                 cpu_correct := (if of_nat pred_cpu = label
                                                 then cpu_correct b + 1 else cpu_correct b),
                                 imc_correct := (if of_nat pred_imc = label
                                                 then imc_correct b + 1 else imc_correct b),
                                 printed := printed b @
                                   table_row d label cpu_cyc imc_cyc (pred_cpu = pred_imc)\<rparr>))))"

function bench_loop :: "net_params \<Rightarrow> (nat \<Rightarrow> u32) \<Rightarrow> nat \<Rightarrow> bench \<Rightarrow> bench option" where
  "bench_loop P clock d b =
     (if d < NUM_TEST_IMAGES P
      then (case bench_image P clock d b of
              None \<Rightarrow> None
            | Some b \<Rightarrow> bench_loop P clock (Suc d) b)
      else Some b)"
  by pat_completeness auto
termination
  by (relation "measure (\<lambda>(P, clock, d, b). NUM_TEST_IMAGES P - d)") auto

declare bench_loop.simps [simp del]

definition results_text :: "bench \<Rightarrow> string" where
  "results_text b =
     ''--------------------------------------------------------'' @ [CHR 0x0A] @
     [CHR 0x0A] @ ''RESULTS:'' @ [CHR 0x0A] @
     ''  CPU Accuracy: '' @ fmt_d (cpu_correct b) @ ''/10'' @ [CHR 0x0A] @
     ''  IMC Accuracy: '' @ fmt_d (imc_correct b) @ ''/10'' @ [CHR 0x0A] @
     ''  Avg CPU Cycles: '' @ fmt_u (total_cpu_cycles b div 10) @ [CHR 0x0A] @
     ''  Avg IMC Cycles: '' @ fmt_u (total_imc_cycles b div 10) @ [CHR 0x0A] @
     [CHR 0x0A] @ ''========================================================'' @ [CHR 0x0A] @ [CHR 0x0A]"

text \<open>
  \<^verbatim>\<open>main\<close> of \<^verbatim>\<open>hello.c\<close> prints the banner and the table header, runs the loop, prints
  the results and then spins in \<^verbatim>\<open>while(1);\<close>, which prints nothing: the value is
  every byte the program sends to the UART, or \<open>None\<close> when an inference divides by zero.
\<close>

definition bench_start :: "net_params \<Rightarrow> bench" where
  "bench_start P = \<lparr>total_cpu_cycles = 0, total_imc_cycles = 0, cpu_correct = 0,
     imc_correct = 0, mem = init_statics P, dev = imc_reset, reads = 0,
     printed = banner @ table_header\<rparr>"

definition hello_main :: "net_params \<Rightarrow> (nat \<Rightarrow> u32) \<Rightarrow> string option" where
  "hello_main P clock =
     (case bench_loop P clock 0 (bench_start P) of
        None \<Rightarrow> None
      | Some b \<Rightarrow> Some (printed b @ results_text b))"

section \<open>The observer of \<^verbatim>\<open>testbench.cpp\<close>\<close>

text \<open>
  The simulated design (\<^verbatim>\<open>Vtop\<close> and its \<^verbatim>\<open>eval\<close>) is external to the observer. What
  the loop reads in each cycle, after the rising clock edge, is one sample of the data
  bus; a run of the simulation is the list of these samples, cycle 0 first.
\<close>

record bus =
  data_req_o :: bool
  data_we_o :: bool
  data_addr_o :: u32
  data_wdata_o :: u32

definition UART_ADDR :: u32 where
  "UART_ADDR = 0x100"

definition max_cycles :: nat where
  "max_cycles = 20000000"

text \<open>
  \<^verbatim>\<open>std::string::find\<close>: the index of the first occurrence, \<open>None\<close> for \<^verbatim>\<open>npos\<close>.
  \<^verbatim>\<open>current_line.substr(pos + k)\<close> followed by \<^verbatim>\<open>marker.substr(0, marker.find('\n'))\<close>
  is the text after the tag up to the first newline, or to the end if there is none.
\<close>

fun find_str :: "string \<Rightarrow> string \<Rightarrow> nat option" where
  "find_str needle [] = (if needle = [] then Some 0 else None)"
| "find_str needle (c # cs) =
     (if take (length needle) (c # cs) = needle then Some 0
      else map_option Suc (find_str needle cs))"

definition marker_name :: "string \<Rightarrow> nat \<Rightarrow> string" where
  "marker_name line k = takeWhile (\<lambda>c. c \<noteq> CHR 0x0A) (drop k line)"

record observer =
  last_uart_write :: bool
  current_line :: string
  markers :: "string \<rightharpoonup> u64"

text \<open>
  The block run when the received character is a newline:
  \<^verbatim>\<open>
      if (current_line.find("@@START_") != std::string::npos) {
          size_t pos = current_line.find("@@START_");
          std::string marker = current_line.substr(pos + 8);
          marker = marker.substr(0, marker.find('\n'));
          markers["START_" + marker] = cycle;
      }
      else if (current_line.find("@@END_") != std::string::npos) {
          ... pos + 6 ...
          markers["END_" + marker] = cycle;
      }
      current_line = "";
  \<close>
\<close>

definition end_of_line :: "nat \<Rightarrow> observer \<Rightarrow> observer" where
  "end_of_line cycle ob =
     (let line = current_line ob
      in case find_str ''@@START_'' line of
           Some pos \<Rightarrow>
             ob\<lparr>markers := (markers ob)(''START_'' @ marker_name line (pos + 8) \<mapsto> of_nat cycle),
                current_line := []\<rparr>
         | None \<Rightarrow>
             (case find_str ''@@END_'' line of
                Some pos \<Rightarrow>
                  ob\<lparr>markers := (markers ob)(''END_'' @ marker_name line (pos + 6) \<mapsto> of_nat cycle),
                     current_line := []\<rparr>
              | None \<Rightarrow> ob\<lparr>current_line := []\<rparr>))"

text \<open>
  One iteration of the simulation loop, after the two \<^verbatim>\<open>eval\<close> calls (the echo of the
  character to \<^verbatim>\<open>std::cout\<close> is not part of the state):
  \<^verbatim>\<open>
      bool uart_write = (top->data_req_o && top->data_we_o && top->data_addr_o == UART_ADDR);
      if (uart_write && !last_uart_write) {
          char ch = (char)(top->data_wdata_o & 0xFF);
          current_line += ch;
          if (ch == '\n') { ... }
      }
      last_uart_write = uart_write;
  \<close>
\<close>

definition observe_cycle :: "nat \<Rightarrow> bus \<Rightarrow> observer \<Rightarrow> observer" where
  "observe_cycle cycle s ob =
     (let uart_write = (data_req_o s \<and> data_we_o s \<and> data_addr_o s = UART_ADDR);
          ob = (if uart_write \<and> \<not> last_uart_write ob
                then (let ch = char_of (unat (data_wdata_o s AND 0xFF));
                          ob = ob\<lparr>current_line := current_line ob @ [ch]\<rparr>
                      in if ch = CHR 0x0A then end_of_line cycle ob else ob)
                else ob)
      in ob\<lparr>last_uart_write := uart_write\<rparr>)"

text \<open>\<^verbatim>\<open>for (; cycle < max_cycles; cycle++) { ... }\<close> over the samples of the run.\<close>

fun observe :: "bus list \<Rightarrow> nat \<Rightarrow> observer \<Rightarrow> observer" where
  "observe [] cycle ob = ob"
| "observe (s # ss) cycle ob =
     (if cycle < max_cycles then observe ss (Suc cycle) (observe_cycle cycle s ob) else ob)"

definition observer_start :: observer where
  "observer_start = \<lparr>last_uart_write = False, current_line = [], markers = Map.empty\<rparr>"

text \<open>
  \<^verbatim>\<open>
  auto calc_diff = [&](const char* name, const std::string& start_key, const std::string& end_key) {
      if (markers.count(start_key) && markers.count(end_key)) {
          uint64_t diff = markers[end_key] - markers[start_key];
          printf("%-20s %12lu cycles\n", name, diff);
          return diff;
      }
      return (uint64_t)0;
  };
  \<close>
  The result is the text printed and the value returned.
\<close>

definition fmt_lu :: "u64 \<Rightarrow> string" where
  "fmt_lu x = dec_nat (unat x)"

definition pad_left :: "nat \<Rightarrow> string \<Rightarrow> string" where
  "pad_left w s = replicate (w - length s) CHR '' '' @ s"

definition calc_diff :: "(string \<rightharpoonup> u64) \<Rightarrow> string \<Rightarrow> string \<Rightarrow> string \<Rightarrow> string \<times> u64" where
  "calc_diff m name start_key end_key =
     (case m start_key of
        None \<Rightarrow> ([], 0)
      | Some s \<Rightarrow>
          (case m end_key of
             None \<Rightarrow> ([], 0)
           | Some e \<Rightarrow>
               (let diff = e - s
                in (pad_right 20 name @ '' '' @ pad_left 12 (fmt_lu diff) @ '' cycles'' @ [CHR 0x0A],
                    diff))))"

text \<open>
  The six calls of \<^verbatim>\<open>main\<close>, in order: \<^verbatim>\<open>prepare\<close>, \<^verbatim>\<open>layer1\<close>, \<^verbatim>\<open>relu\<close>,
  \<^verbatim>\<open>layer2\<close>, \<^verbatim>\<open>argmax\<close>, \<^verbatim>\<open>total\<close>.
\<close>

definition breakdown :: "(string \<rightharpoonup> u64) \<Rightarrow> (string \<times> u64) list" where
  "breakdown m =
     [calc_diff m ''Prepare input:'' ''START_PREPARE'' ''END_PREPARE'',
      calc_diff m ''Layer 1 (784->32):'' ''START_LAYER1'' ''END_LAYER1'',
      calc_diff m ''ReLU:'' ''START_RELU'' ''END_RELU'',
      calc_diff m ''Layer 2 (32->10):'' ''START_LAYER2'' ''END_LAYER2'',
      calc_diff m ''Argmax:'' ''START_ARGMAX'' ''END_ARGMAX'',
      calc_diff m ''TOTAL:'' ''START_TOTAL'' ''END_TOTAL'']"

text \<open>
  The duration of a phase in the spec's words: \<open>END[name] - START[name]\<close> when both
  markers exist, else zero.
\<close>

definition phase_duration_spec :: "(string \<rightharpoonup> u64) \<Rightarrow> string \<Rightarrow> u64" where
  "phase_duration_spec m name =
     (if ''START_'' @ name \<in> dom m \<and> ''END_'' @ name \<in> dom m
      then the (m (''END_'' @ name)) - the (m (''START_'' @ name)) else 0)"

text \<open>
  Synthetic bus traces: an idle cycle, a store of one character to the UART, and the
  transmission of a string with one idle cycle after each store. In \<open>layer1_trace\<close>
  the newline of \<^verbatim>\<open>@@START_LAYER1\<close> is stored in cycle 100 and the newline of
  \<^verbatim>\<open>@@END_LAYER1\<close> in cycle 340.
\<close>

definition idle :: bus where
  "idle = \<lparr>data_req_o = False, data_we_o = False, data_addr_o = 0, data_wdata_o = 0\<rparr>"

definition uart_store :: "char \<Rightarrow> bus" where
  "uart_store c = \<lparr>data_req_o = True, data_we_o = True, data_addr_o = UART_ADDR,
     data_wdata_o = of_nat (of_char c)\<rparr>"

definition transmit :: "string \<Rightarrow> bus list" where
  "transmit s = concat (map (\<lambda>c. [uart_store c, idle]) s)"

definition layer1_trace :: "bus list" where
  "layer1_trace =
     replicate 72 idle @ transmit (''@@START_LAYER1'' @ [CHR 0x0A]) @
     replicate 214 idle @ transmit (''@@END_LAYER1'' @ [CHR 0x0A])"

text \<open>The same trace cut after the \<^verbatim>\<open>@@START_LAYER1\<close> line: the end marker never appears.\<close>

definition start_only_trace :: "bus list" where
  "start_only_trace = replicate 72 idle @ transmit (''@@START_LAYER1'' @ [CHR 0x0A])"

section \<open>A concrete run\<close>

text \<open>
  \<open>tiny_clock\<close> is a cycle counter that reads 0, 1000, 4000, 9000 on its first four
  reads.
\<close>

definition tiny_clock :: "nat \<Rightarrow> u32" where
  "tiny_clock k = of_nat (1000 * k * k)"

text \<open>The contents of the three buffers after an inference of \<open>tiny_params\<close> on its test image.\<close>

definition tiny_result :: statics where
  "tiny_result = \<lparr>hidden_acc = [23], hidden_act = [7], output_acc = [15, - 21]\<rparr>"

text \<open>What the run of \<open>tiny_params\<close> with \<open>tiny_clock\<close> prints.\<close>

definition tiny_output :: string where
  "tiny_output =
     banner @ table_header @
     ''  0   |   0   | 1000         | 5000         | YES'' @ [CHR 0x0A] @
     ''--------------------------------------------------------'' @ [CHR 0x0A] @
     [CHR 0x0A] @ ''RESULTS:'' @ [CHR 0x0A] @
     ''  CPU Accuracy: 1/10'' @ [CHR 0x0A] @
     ''  IMC Accuracy: 1/10'' @ [CHR 0x0A] @
     ''  Avg CPU Cycles: 100'' @ [CHR 0x0A] @
     ''  Avg IMC Cycles: 500'' @ [CHR 0x0A] @
     [CHR 0x0A] @ ''========================================================'' @
     [CHR 0x0A] @ [CHR 0x0A]"

section \<open>Properties of class selection\<close>

lemma argmax_fold_Suc:
  "fold (argmax_step a) [1..<Suc (Suc m)] 0 =
     argmax_step a (Suc m) (fold (argmax_step a) [1..<Suc m] 0)"
proof -
  have "[1..<Suc (Suc m)] = [1..<Suc m] @ [Suc m]"
    by (rule upt_Suc_append) simp
  then show ?thesis by (simp del: upt_Suc)
qed

lemma argmax_fold_inv:
  "fold (argmax_step a) [1..<Suc m] 0 < Suc m \<and>
   (\<forall>j<Suc m. a ! j \<le>s a ! fold (argmax_step a) [1..<Suc m] 0) \<and>
   (\<forall>j<fold (argmax_step a) [1..<Suc m] 0. a ! j <s a ! fold (argmax_step a) [1..<Suc m] 0)"
proof (induction m)
  case 0
  show ?case by simp
next
  case (Suc m)
  define b where "b = fold (argmax_step a) [1..<Suc m] 0"
  have step: "fold (argmax_step a) [1..<Suc (Suc m)] 0 = argmax_step a (Suc m) b"
    unfolding b_def by (rule argmax_fold_Suc)
  from Suc have b1: "b < Suc m" and b2: "\<forall>j<Suc m. a ! j \<le>s a ! b"
    and b3: "\<forall>j<b. a ! j <s a ! b"
    unfolding b_def by blast+
  show ?case
  proof (cases "a ! b <s a ! Suc m")
    case True
    then have new: "argmax_step a (Suc m) b = Suc m"
      by (simp add: argmax_step_def)
    have le: "a ! j \<le>s a ! Suc m" if "j < Suc (Suc m)" for j
    proof (cases "j = Suc m")
      case True
      then show ?thesis by simp
    next
      case False
      with that have "j < Suc m" by simp
      with b2 have "a ! j \<le>s a ! b" by blast
      with True show ?thesis by (simp add: word_sle_eq word_sless_alt)
    qed
    have less: "a ! j <s a ! Suc m" if "j < Suc m" for j
    proof -
      from that b2 have "a ! j \<le>s a ! b" by blast
      with True show ?thesis by (simp add: word_sle_eq word_sless_alt)
    qed
    show ?thesis unfolding step new using le less by blast
  next
    case False
    then have old: "argmax_step a (Suc m) b = b"
      by (simp add: argmax_step_def)
    have le: "a ! j \<le>s a ! b" if "j < Suc (Suc m)" for j
    proof (cases "j = Suc m")
      case True
      with False show ?thesis by (simp add: word_sle_eq word_sless_alt)
    next
      case False
      with that have "j < Suc m" by simp
      with b2 show ?thesis by blast
    qed
    from b1 have "b < Suc (Suc m)" by simp
    then show ?thesis unfolding step old using le b3 by blast
  qed
qed

text \<open>
  C8. For a non-empty score vector \<open>a\<close>, \<open>argmax a (length a)\<close> is an index of \<open>a\<close>
  holding a maximal value (signed comparison), and every index before it holds a strictly
  smaller value: it is the lowest index attaining the maximum. In particular
  \<open>argmax [5,5,3] = 0\<close> and \<open>argmax [1,9,9,2] = 1\<close>.
\<close>

theorem argmax_lowest_max_index:
  "a \<noteq> [] \<Longrightarrow>
     argmax a (length a) < length a \<and>
     (\<forall>j<length a. a ! j \<le>s a ! argmax a (length a)) \<and>
     (\<forall>j<argmax a (length a). a ! j <s a ! argmax a (length a)) \<and>
     argmax [5, 5, 3] 3 = 0 \<and> argmax [1, 9, 9, 2] 4 = 1"
proof -
  assume "a \<noteq> []"
  then obtain m where m: "length a = Suc m" by (cases a) auto
  have ex1: "argmax [5, 5, 3] 3 = 0"
    by (simp add: argmax_def argmax_step_def upt_rec word_sless_alt)
  have ex2: "argmax [1, 9, 9, 2] 4 = 1"
    by (simp add: argmax_def argmax_step_def upt_rec word_sless_alt)
  have "argmax a (length a) = fold (argmax_step a) [1..<Suc m] 0"
    unfolding argmax_def m ..
  with argmax_fold_inv [of a m] ex1 ex2 show ?thesis
    unfolding m by presburger
qed

theorem argmax_lowest_max_index_witness:
  "[7, 2, 7 :: i32] \<noteq> [] \<and> argmax [7, 2, 7] (length [7, 2, 7 :: i32]) = 0"
proof -
  define k where "k = argmax [7, 2, 7] (length [7, 2, 7 :: i32])"
  have ne: "[7, 2, 7 :: i32] \<noteq> []" by simp
  from argmax_lowest_max_index [OF ne]
  have k3: "k < 3" and first: "\<forall>j<k. [7, 2, 7 :: i32] ! j <s [7, 2, 7] ! k"
    unfolding k_def by simp_all
  have "k = 0"
  proof (rule ccontr)
    assume "k \<noteq> 0"
    then have "0 < k" by simp
    with first have lt: "[7, 2, 7 :: i32] ! 0 <s [7, 2, 7] ! k" by blast
    from k3 \<open>k \<noteq> 0\<close> consider "k = 1" | "k = 2" by linarith
    then show False
    proof cases
      case 1
      with lt show False by (simp add: word_sless_alt)
    next
      case 2
      with lt show False by (simp add: word_sless_alt)
    qed
  qed
  with ne show ?thesis unfolding k_def by simp
qed

section \<open>Word arithmetic used by the tile\<close>

lemma sint8_bounds: "- 128 \<le> sint (w :: i8)" "sint (w :: i8) < 128"
  using sint_ge [of w] sint_lt [of w] by simp_all

lemma uint8_bounds: "0 \<le> uint (x :: u8)" "uint (x :: u8) < 256"
  using uint_lt2p [of x] by simp_all

lemma uint_conductance: "uint (conductance w) = sint w + 128"
proof -
  have "uint (word_of_int (sint w + 128) :: u32) = (sint w + 128) mod 2 ^ LENGTH(32)"
    by (rule uint_word_of_int)
  moreover have "conductance w = word_of_int (sint w + 128)"
    by (simp add: conductance_def)
  ultimately have "uint (conductance w) = (sint w + 128) mod 2 ^ LENGTH(32)"
    by (simp only:)
  with sint8_bounds [of w] show ?thesis by simp
qed

lemma ucast_low8:
  fixes x :: u32
  assumes "uint x < 2 ^ 8"
  shows "(ucast (ucast x :: u8) :: u32) = x"
proof -
  have "uint (ucast (ucast x :: u8) :: u32) = take_bit LENGTH(32) (uint (ucast x :: u8))"
    by (rule unsigned_ucast_eq)
  also have "uint (ucast x :: u8) = take_bit LENGTH(8) (uint x)"
    by (rule unsigned_ucast_eq)
  also have "take_bit LENGTH(8) (uint x) = uint x"
    using assms by (simp add: take_bit_int_eq_self)
  also have "take_bit LENGTH(32) (uint x) = uint x"
    by (simp add: take_bit_int_eq_self uint_lt2p [of x, simplified])
  finally show ?thesis by (simp only: word_uint_eq_iff)
qed

lemma conductance_low8: "ucast (ucast (conductance w) :: u8) = conductance w"
  using sint8_bounds [of w] by (intro ucast_low8) (simp add: uint_conductance)

lemma pack4_byte0: "ucast (pack4 b0 b1 b2 b3) = b0"
  by (rule bit_word_eqI) (auto simp: pack4_def bit_simps dest: bit_imp_le_length)

lemma pack4_byte1: "ucast (drop_bit 8 (pack4 b0 b1 b2 b3)) = b1"
  by (rule bit_word_eqI) (auto simp: pack4_def bit_simps dest: bit_imp_le_length)

lemma pack4_byte2: "ucast (drop_bit 16 (pack4 b0 b1 b2 b3)) = b2"
  by (rule bit_word_eqI) (auto simp: pack4_def bit_simps dest: bit_imp_le_length)

lemma pack4_byte3: "ucast (drop_bit 24 (pack4 b0 b1 b2 b3)) = b3"
  by (rule bit_word_eqI) (auto simp: pack4_def bit_simps dest: bit_imp_le_length)

section \<open>Programming and driving one tile\<close>

lemma less8_cases: "c < 8 \<Longrightarrow> c = 0 \<or> c = 1 \<or> c = 2 \<or> c = 3 \<or> c = 4 \<or> c = 5 \<or> c = 6 \<or> c = (7::nat)"
  by arith

lemma input_byte_drive_inputs: "c < 8 \<Longrightarrow> input_byte (drive_inputs v d) c = v ! c"
  using less8_cases [of c]
  by (auto simp: input_byte_def drive_inputs_def write_IMC_V_INPUT_LO_def
      write_IMC_V_INPUT_HI_def pack4_byte0 pack4_byte1 pack4_byte2 pack4_byte3)

lemma cells_drive_inputs: "cells (drive_inputs v d) = cells d"
  by (simp add: drive_inputs_def write_IMC_V_INPUT_LO_def write_IMC_V_INPUT_HI_def)

lemma cells_program_cell:
  "r < 8 \<Longrightarrow> c < 8 \<Longrightarrow>
   cells (program_cell W rows cols rs cs r c d) =
     (cells d)(r * 8 + c := ucast (g_val W rows cols rs cs r c))"
proof -
  assume "r < 8" "c < 8"
  then have "r * 8 + c < 2 ^ 32" by simp
  then have "unat (of_nat (r * 8 + c) :: u32) = r * 8 + c"
    by (simp add: unat_of_nat take_bit_nat_eq_self del: of_nat_add of_nat_mult)
  then show ?thesis
    by (simp add: program_cell_def write_IMC_PROG_ADDR_def write_IMC_PROG_DATA_def
        del: of_nat_add of_nat_mult)
qed

lemma cells_program_row_upto:
  "m \<le> 8 \<Longrightarrow> r < 8 \<Longrightarrow>
   cells (fold (program_cell W rows cols rs cs r) [0..<m] d) k =
     (if r * 8 \<le> k \<and> k < r * 8 + m then ucast (g_val W rows cols rs cs r (k - r * 8))
      else cells d k)"
proof (induction m)
  case 0
  show ?case by auto
next
  case (Suc m)
  then have m: "m < 8" "m \<le> 8" by simp_all
  define d' where "d' = fold (program_cell W rows cols rs cs r) [0..<m] d"
  have step: "fold (program_cell W rows cols rs cs r) [0..<Suc m] d =
      program_cell W rows cols rs cs r m d'"
    by (simp add: d'_def)
  have IH: "cells d' k = (if r * 8 \<le> k \<and> k < r * 8 + m
      then ucast (g_val W rows cols rs cs r (k - r * 8)) else cells d k)"
    unfolding d'_def by (rule Suc.IH [OF m(2) Suc.prems(2)])
  have upd: "cells (program_cell W rows cols rs cs r m d') k =
      (if k = r * 8 + m then ucast (g_val W rows cols rs cs r m) else cells d' k)"
    by (simp add: cells_program_cell [OF Suc.prems(2) m(1)])
  show ?case
  proof (cases "k = r * 8 + m")
    case True
    then show ?thesis unfolding step upd by simp
  next
    case False
    then have "(r * 8 \<le> k \<and> k < r * 8 + Suc m) = (r * 8 \<le> k \<and> k < r * 8 + m)"
      by arith
    with False show ?thesis unfolding step upd IH by simp
  qed
qed

lemma cells_program_tile_upto:
  "n \<le> 8 \<Longrightarrow>
   cells (fold (program_row W rows cols rs cs) [0..<n] d) k =
     (if k < n * 8 then ucast (g_val W rows cols rs cs (k div 8) (k mod 8)) else cells d k)"
proof (induction n)
  case 0
  show ?case by simp
next
  case (Suc n)
  then have n: "n < 8" "n \<le> 8" by simp_all
  define d' where "d' = fold (program_row W rows cols rs cs) [0..<n] d"
  have step: "fold (program_row W rows cols rs cs) [0..<Suc n] d =
      fold (program_cell W rows cols rs cs n) [0..<8] d'"
    by (simp add: d'_def program_row_def)
  have IH: "cells d' k = (if k < n * 8
      then ucast (g_val W rows cols rs cs (k div 8) (k mod 8)) else cells d k)"
    unfolding d'_def by (rule Suc.IH [OF n(2)])
  have row: "cells (fold (program_cell W rows cols rs cs n) [0..<8] d') k =
     (if n * 8 \<le> k \<and> k < n * 8 + 8 then ucast (g_val W rows cols rs cs n (k - n * 8))
      else cells d' k)"
    by (rule cells_program_row_upto [OF order_refl n(1)])
  show ?case
  proof (cases "n * 8 \<le> k \<and> k < n * 8 + 8")
    case True
    then have kd: "k div 8 = n" and kl: "k < Suc n * 8"
      by (auto simp: div_nat_eqI)
    from True have km: "k mod 8 = k - n * 8"
      unfolding modulo_nat_def kd by (simp add: mult.commute)
    show ?thesis unfolding step row kd km by (simp only: if_P [OF True] if_P [OF kl])
  next
    case False
    then have "(k < Suc n * 8) = (k < n * 8)" by auto
    then show ?thesis unfolding step row IH by (simp only: if_not_P [OF False])
  qed
qed

lemma cells_program_tile:
  "r < 8 \<Longrightarrow> c < 8 \<Longrightarrow>
   cells (program_tile W rows cols rs cs d) (r * 8 + c) = ucast (g_val W rows cols rs cs r c)"
proof -
  assume rc: "r < 8" "c < 8"
  then have "r * 8 + c < 8 * 8" "(r * 8 + c) div 8 = r" "(r * 8 + c) mod 8 = c"
    by simp_all
  then show ?thesis
    unfolding program_tile_def cells_program_tile_upto [OF order_refl]
    by (simp only: if_True)
qed

lemma load_inputs_upto:
  "m \<le> 8 \<Longrightarrow>
   length (fst (fold (load_input inp cols cs) [0..<m] (replicate 8 0, 0))) = 8 \<and>
   (\<forall>c<8. fst (fold (load_input inp cols cs) [0..<m] (replicate 8 0, 0)) ! c =
      (if c < m then padded_input inp cols cs c else 0)) \<and>
   snd (fold (load_input inp cols cs) [0..<m] (replicate 8 0, 0)) =
      sum_list (map (\<lambda>c. ucast (padded_input inp cols cs c)) [0..<m])"
proof (induction m)
  case 0
  show ?case by simp
next
  case (Suc m)
  then have m: "m < 8" "m \<le> 8" by simp_all
  define F where "F = fold (load_input inp cols cs) [0..<m] (replicate 8 0, 0)"
  have step: "fold (load_input inp cols cs) [0..<Suc m] (replicate 8 0, 0) =
      load_input inp cols cs m F"
    by (simp add: F_def)
  from Suc.IH [OF m(2)] have len: "length (fst F) = 8"
    and nth: "\<And>c. c < 8 \<Longrightarrow> fst F ! c = (if c < m then padded_input inp cols cs c else 0)"
    and sm: "snd F = sum_list (map (\<lambda>c. ucast (padded_input inp cols cs c)) [0..<m])"
    unfolding F_def by blast+
  show ?case
  proof (cases "cs + m < cols")
    case True
    then have li: "load_input inp cols cs m F =
        ((fst F)[m := inp ! (cs + m)], snd F + ucast (inp ! (cs + m)))"
      using m(1) len by (simp add: load_input_def split_beta Let_def)
    have pm: "padded_input inp cols cs m = inp ! (cs + m)"
      using True by (simp add: padded_input_def)
    have "\<forall>c<8. (fst F)[m := inp ! (cs + m)] ! c =
        (if c < Suc m then padded_input inp cols cs c else 0)"
      using len nth pm by (auto simp: nth_list_update less_Suc_eq)
    then show ?thesis unfolding step li using len sm pm by simp
  next
    case False
    then have li: "load_input inp cols cs m F = F"
      by (simp add: load_input_def split_beta)
    have pm: "padded_input inp cols cs m = 0"
      using False by (simp add: padded_input_def)
    have "\<forall>c<8. fst F ! c = (if c < Suc m then padded_input inp cols cs c else 0)"
      using nth pm by (auto simp: less_Suc_eq)
    then show ?thesis unfolding step li using len sm pm by simp
  qed
qed

lemma load_inputs_nth: "c < 8 \<Longrightarrow> fst (load_inputs inp cols cs) ! c = padded_input inp cols cs c"
  using load_inputs_upto [of 8 inp cols cs] unfolding load_inputs_def by simp

lemma load_inputs_sum:
  "snd (load_inputs inp cols cs) = sum_list (map (\<lambda>c. ucast (padded_input inp cols cs c)) [0..<8])"
  using load_inputs_upto [of 8 inp cols cs] unfolding load_inputs_def by blast

lemma IMC_RESULT_tile_device:
  assumes "r < 8"
  shows "IMC_RESULT (tile_device W rows cols inp rs cs d) r =
    sum_list (map (\<lambda>c. g_val W rows cols rs cs r c * ucast (padded_input inp cols cs c)) [0..<8])"
proof -
  have "ucast (cells (tile_device W rows cols inp rs cs d) (r * 8 + c)) *
          ucast (input_byte (tile_device W rows cols inp rs cs d) c) =
        g_val W rows cols rs cs r c * (ucast (padded_input inp cols cs c) :: u32)"
    if "c \<in> set [0..<8]" for c
  proof -
    from that have c: "c < 8" by simp
    have "(ucast (ucast (g_val W rows cols rs cs r c) :: u8) :: u32) = g_val W rows cols rs cs r c"
      by (simp add: g_val_def Let_def conductance_low8 ucast_low8)
    then show ?thesis
      unfolding tile_device_def cells_drive_inputs input_byte_drive_inputs [OF c]
        cells_program_tile [OF assms c] load_inputs_nth [OF c]
      by (simp only:)
  qed
  then show ?thesis
    unfolding IMC_RESULT_def by (intro arg_cong [where f = sum_list] map_cong refl)
qed

section \<open>Sums of products without overflow\<close>

lemma uint8_le: "uint (x :: u8) \<le> 255"
  using uint8_bounds(2) [of x] by simp

lemma sum_list_int_bounds:
  fixes f :: "'a \<Rightarrow> int"
  assumes "\<And>x. x \<in> set xs \<Longrightarrow> lo \<le> f x \<and> f x \<le> hi"
  shows "int (length xs) * lo \<le> sum_list (map f xs) \<and> sum_list (map f xs) \<le> int (length xs) * hi"
  using assms
proof (induction xs)
  case Nil
  show ?case by simp
next
  case (Cons x xs)
  then have "lo \<le> f x \<and> f x \<le> hi" and
    "int (length xs) * lo \<le> sum_list (map f xs) \<and> sum_list (map f xs) \<le> int (length xs) * hi"
    by simp_all
  then show ?case by (simp add: algebra_simps)
qed

lemma word_of_int_sum_list:
  "(word_of_int (sum_list (map f xs)) :: 'a::len word) = sum_list (map (\<lambda>x. word_of_int (f x)) xs)"
  by (induction xs) simp_all

lemma uint_sum_list_small:
  fixes f :: "'a \<Rightarrow> int"
  assumes "\<And>x. x \<in> set xs \<Longrightarrow> 0 \<le> f x \<and> f x \<le> hi"
    and "int (length xs) * hi < 2 ^ 32"
  shows "uint (sum_list (map (\<lambda>x. word_of_int (f x)) xs) :: u32) = sum_list (map f xs)"
proof -
  from sum_list_int_bounds [of xs 0 f hi] assms
  have "0 \<le> sum_list (map f xs)" "sum_list (map f xs) < 2 ^ 32" by auto
  then have "uint (word_of_int (sum_list (map f xs)) :: u32) = sum_list (map f xs)"
    by (simp add: uint_word_of_int)
  then show ?thesis by (simp only: word_of_int_sum_list)
qed

lemma sint_sum_list_small:
  fixes f :: "'a \<Rightarrow> int"
  assumes "\<And>x. x \<in> set xs \<Longrightarrow> - hi \<le> f x \<and> f x \<le> hi"
    and "int (length xs) * hi < 2 ^ 31"
  shows "sint (sum_list (map (\<lambda>x. word_of_int (f x)) xs) :: i32) = sum_list (map f xs)"
proof -
  from sum_list_int_bounds [of xs "- hi" f hi] assms
  have "- (2 ^ 31) \<le> sum_list (map f xs)" "sum_list (map f xs) < 2 ^ 31" by auto
  then have "sint (word_of_int (sum_list (map f xs)) :: i32) = sum_list (map f xs)"
    by (simp add: sint_sbintrunc' signed_take_bit_int_eq_self)
  then show ?thesis by (simp only: word_of_int_sum_list)
qed

lemma uint_g_val:
  "uint (g_val W rows cols rs cs r c) =
     (if rs + r < rows \<and> cs + c < cols then sint (W ! ((rs + r) * cols + (cs + c))) + 128 else 128)"
  by (simp add: g_val_def Let_def uint_conductance)

lemma uint_g_val_bounds:
  "0 \<le> uint (g_val W rows cols rs cs r c)" "uint (g_val W rows cols rs cs r c) \<le> 255"
  using sint8_bounds [of "W ! ((rs + r) * cols + (cs + c))"] by (simp_all add: uint_g_val)

lemma uint_sum_v:
  "uint (snd (load_inputs inp cols cs)) =
     sum_list (map (\<lambda>c. uint (padded_input inp cols cs c)) [0..<8])"
proof -
  have "uint (sum_list (map (\<lambda>c. word_of_int (uint (padded_input inp cols cs c))) [0..<8]) :: u32)
      = sum_list (map (\<lambda>c. uint (padded_input inp cols cs c)) [0..<8])"
    by (rule uint_sum_list_small [where hi = 255]) (use uint8_le in auto)
  then show ?thesis unfolding load_inputs_sum by simp
qed

lemma uint_raw:
  assumes "r < 8"
  shows "uint (IMC_RESULT (tile_device W rows cols inp rs cs d) r) =
     sum_list (map (\<lambda>c. uint (g_val W rows cols rs cs r c) * uint (padded_input inp cols cs c)) [0..<8])"
proof -
  have b: "0 \<le> uint (g_val W rows cols rs cs r c) * uint (padded_input inp cols cs c) \<and>
      uint (g_val W rows cols rs cs r c) * uint (padded_input inp cols cs c) \<le> 255 * 255" for c
  proof
    show "0 \<le> uint (g_val W rows cols rs cs r c) * uint (padded_input inp cols cs c)"
      by simp
    show "uint (g_val W rows cols rs cs r c) * uint (padded_input inp cols cs c) \<le> 255 * 255"
      by (rule mult_mono) (simp_all add: uint_g_val_bounds uint8_le)
  qed
  have "uint (sum_list (map (\<lambda>c. word_of_int (uint (g_val W rows cols rs cs r c) *
            uint (padded_input inp cols cs c))) [0..<8]) :: u32)
      = sum_list (map (\<lambda>c. uint (g_val W rows cols rs cs r c) * uint (padded_input inp cols cs c)) [0..<8])"
    by (rule uint_sum_list_small [where hi = "255 * 255"]) (use b in auto)
  then show ?thesis unfolding IMC_RESULT_tile_device [OF assms] by simp
qed

lemma tile_dot_of_int:
  "tile_dot W inp rows cols rs cs r = word_of_int (tile_dot_int W inp rows cols rs cs r)"
  unfolding tile_dot_def tile_dot_int_def word_of_int_sum_list
  by (intro arg_cong [where f = sum_list] map_cong refl) simp

lemma offset_term:
  "uint (g_val W rows cols rs cs r c) * uint (padded_input inp cols cs c)
     - 128 * uint (padded_input inp cols cs c) =
   (if rs + r < rows \<and> cs + c < cols
    then sint (W ! ((rs + r) * cols + (cs + c))) * uint (inp ! (cs + c)) else 0)"
  by (simp add: uint_g_val padded_input_def algebra_simps)

lemma offset_correction_int:
  assumes "r < 8"
  shows "uint (IMC_RESULT (tile_device W rows cols inp rs cs d) r)
           - 128 * uint (snd (load_inputs inp cols cs))
         = tile_dot_int W inp rows cols rs cs r"
proof -
  have "uint (IMC_RESULT (tile_device W rows cols inp rs cs d) r)
           - 128 * uint (snd (load_inputs inp cols cs))
      = sum_list (map (\<lambda>c. uint (g_val W rows cols rs cs r c) * uint (padded_input inp cols cs c)
           - 128 * uint (padded_input inp cols cs c)) [0..<8])"
    unfolding uint_raw [OF assms] uint_sum_v
    by (simp only: sum_list_subtractf sum_list_const_mult)
  then show ?thesis unfolding offset_term tile_dot_int_def .
qed

lemma mac_term_bounds:
  "- (128 * 255) \<le> sint (w :: i8) * uint (x :: u8)" "sint (w :: i8) * uint (x :: u8) \<le> 128 * 255"
proof -
  have "\<bar>sint w\<bar> \<le> 128" using sint8_bounds [of w] by simp
  moreover have "\<bar>uint x\<bar> \<le> 255" using uint8_le [of x] by simp
  ultimately have "\<bar>sint w\<bar> * \<bar>uint x\<bar> \<le> 128 * 255"
    by (intro mult_mono) simp_all
  then have "\<bar>sint w * uint x\<bar> \<le> 128 * 255" by (simp only: abs_mult)
  then show "- (128 * 255) \<le> sint w * uint x" "sint w * uint x \<le> 128 * 255"
    by linarith+
qed

lemma sint_tile_dot:
  "sint (tile_dot W inp rows cols rs cs r) = tile_dot_int W inp rows cols rs cs r"
proof -
  have "sint (sum_list (map (\<lambda>c. word_of_int (if rs + r < rows \<and> cs + c < cols
                         then sint (W ! ((rs + r) * cols + (cs + c))) * uint (inp ! (cs + c))
                         else 0)) [0..<8]) :: i32)
     = sum_list (map (\<lambda>c. if rs + r < rows \<and> cs + c < cols
                         then sint (W ! ((rs + r) * cols + (cs + c))) * uint (inp ! (cs + c))
                         else 0) [0..<8])"
    by (rule sint_sum_list_small [where hi = "128 * 255"])
      (use mac_term_bounds in \<open>auto simp del: mult_minus_left mult_minus_right\<close>)
  then show ?thesis
    unfolding tile_dot_of_int tile_dot_int_def word_of_int_sum_list .
qed

lemma true_mac_tile:
  assumes "r < 8"
  shows "true_mac (IMC_RESULT (tile_device W rows cols inp rs cs d) r)
           (snd (load_inputs inp cols cs)) = tile_dot W inp rows cols rs cs r"
proof -
  have "true_mac (IMC_RESULT (tile_device W rows cols inp rs cs d) r)
           (snd (load_inputs inp cols cs))
      = word_of_int (uint (IMC_RESULT (tile_device W rows cols inp rs cs d) r)
           - 128 * uint (snd (load_inputs inp cols cs)))"
    by (simp add: true_mac_def)
  then show ?thesis
    unfolding offset_correction_int [OF assms] tile_dot_of_int .
qed

section \<open>Loops that update the accumulator\<close>

lemma fold_upd_upt:
  "length (fold (\<lambda>r out. out[r := h r (out ! r)]) [0..<n] out) = length out \<and>
   (\<forall>i<length out. fold (\<lambda>r out. out[r := h r (out ! r)]) [0..<n] out ! i =
      (if i < n then h i (out ! i) else out ! i))"
proof (induction n)
  case 0
  show ?case by simp
next
  case (Suc n)
  define o' where "o' = fold (\<lambda>r out. out[r := h r (out ! r)]) [0..<n] out"
  have step: "fold (\<lambda>r out. out[r := h r (out ! r)]) [0..<Suc n] out = o'[n := h n (o' ! n)]"
    by (simp add: o'_def)
  from Suc have len: "length o' = length out"
    and nth: "\<And>i. i < length out \<Longrightarrow> o' ! i = (if i < n then h i (out ! i) else out ! i)"
    unfolding o'_def by blast+
  show ?case unfolding step using len nth by (auto simp: nth_list_update less_Suc_eq)
qed

lemma read_correct_upto:
  "length (fold (read_correct_row d rows rs sv) [0..<n] out) = length out \<and>
   (\<forall>i<length out. fold (read_correct_row d rows rs sv) [0..<n] out ! i =
      (if rs \<le> i \<and> i < rs + n \<and> i < rows
       then out ! i + true_mac (IMC_RESULT d (i - rs)) sv else out ! i))"
proof (induction n)
  case 0
  show ?case by auto
next
  case (Suc n)
  define o' where "o' = fold (read_correct_row d rows rs sv) [0..<n] out"
  have step: "fold (read_correct_row d rows rs sv) [0..<Suc n] out =
      read_correct_row d rows rs sv n o'"
    by (simp add: o'_def)
  from Suc have len: "length o' = length out"
    and nth: "\<And>i. i < length out \<Longrightarrow> o' ! i =
      (if rs \<le> i \<and> i < rs + n \<and> i < rows
       then out ! i + true_mac (IMC_RESULT d (i - rs)) sv else out ! i)"
    unfolding o'_def by blast+
  show ?case
  proof (cases "rs + n < rows")
    case True
    then have rc: "read_correct_row d rows rs sv n o' =
        o'[rs + n := o' ! (rs + n) + true_mac (IMC_RESULT d n) sv]"
      by (simp add: read_correct_row_def Let_def)
    have "o'[rs + n := o' ! (rs + n) + true_mac (IMC_RESULT d n) sv] ! i =
      (if rs \<le> i \<and> i < rs + Suc n \<and> i < rows
       then out ! i + true_mac (IMC_RESULT d (i - rs)) sv else out ! i)"
      if i: "i < length out" for i
    proof (cases "i = rs + n")
      case eq: True
      with i len nth [OF i] True show ?thesis by simp
    next
      case False
      then have "(rs \<le> i \<and> i < rs + Suc n \<and> i < rows) = (rs \<le> i \<and> i < rs + n \<and> i < rows)"
        by arith
      with False i len nth [OF i] show ?thesis by simp
    qed
    then show ?thesis unfolding step rc using len by simp
  next
    case False
    then have rc: "read_correct_row d rows rs sv n o' = o'"
      by (simp add: read_correct_row_def)
    have "(rs \<le> i \<and> i < rs + Suc n \<and> i < rows) = (rs \<le> i \<and> i < rs + n \<and> i < rows)" for i
      using False by arith
    then show ?thesis unfolding step rc using len nth by simp
  qed
qed

lemma imc_tile_mac_length:
  "length (fst (imc_tile_mac W rows cols inp rs cs (out, d))) = length out"
  using read_correct_upto [of _ rows rs _ 8 out]
  by (simp add: imc_tile_mac_def Let_def read_correct_def)

lemma imc_tile_mac_nth:
  assumes "i < length out"
  shows "fst (imc_tile_mac W rows cols inp rs cs (out, d)) ! i =
      (if rs \<le> i \<and> i < rs + 8 \<and> i < rows
       then out ! i + tile_dot W inp rows cols rs cs (i - rs) else out ! i)"
proof -
  have "fst (imc_tile_mac W rows cols inp rs cs (out, d)) ! i =
      (if rs \<le> i \<and> i < rs + 8 \<and> i < rows
       then out ! i + true_mac (IMC_RESULT (tile_device W rows cols inp rs cs d) (i - rs))
              (snd (load_inputs inp cols cs))
       else out ! i)"
    using read_correct_upto [of "tile_device W rows cols inp rs cs d" rows rs
        "snd (load_inputs inp cols cs)" 8 out] assms
    by (simp add: imc_tile_mac_def Let_def read_correct_def)
  moreover have "true_mac (IMC_RESULT (tile_device W rows cols inp rs cs d) (i - rs))
              (snd (load_inputs inp cols cs)) = tile_dot W inp rows cols rs cs (i - rs)"
    if "rs \<le> i \<and> i < rs + 8 \<and> i < rows"
    by (rule true_mac_tile) (use that in arith)
  ultimately show ?thesis by simp
qed

lemma band_sum:
  fixes f :: "nat \<Rightarrow> i32"
  shows "sum_list (map (\<lambda>c. if cs + c < cols then f (cs + c) else 0) [0..<n]) =
     sum_list (map f [cs..<min (cs + n) cols])"
proof (induction n)
  case 0
  show ?case by simp
next
  case (Suc n)
  show ?case
  proof (cases "cs + n < cols")
    case True
    then have "min (cs + Suc n) cols = Suc (cs + n)" "min (cs + n) cols = cs + n" by simp_all
    with Suc True show ?thesis by simp
  next
    case False
    then have "min (cs + Suc n) cols = cols" "min (cs + n) cols = cols" by simp_all
    with Suc False show ?thesis by simp
  qed
qed

lemma tile_dot_dot_range:
  assumes "rs \<le> i" "i < rows"
  shows "tile_dot W inp rows cols rs cs (i - rs) = dot_range W inp cols i cs (min (cs + 8) cols)"
proof -
  from assms have i: "rs + (i - rs) = i" by simp
  show ?thesis
    unfolding tile_dot_def dot_range_def i
    using band_sum [of cs cols "\<lambda>c. scast (W ! (i * cols + c)) * ucast (inp ! c)" 8] assms(2)
    by simp
qed

lemma dot_range_split:
  "lo \<le> mid \<Longrightarrow> mid \<le> hi \<Longrightarrow>
   dot_range W inp cols i lo mid + dot_range W inp cols i mid hi = dot_range W inp cols i lo hi"
proof -
  assume "lo \<le> mid" "mid \<le> hi"
  then have "[lo..<hi] = [lo..<mid] @ [mid..<hi]"
    by (metis le_Suc_ex upt_add_eq_append)
  then show ?thesis by (simp add: dot_range_def)
qed

lemma imc_row_loop_inv:
  "length (fst (imc_row_loop W rows cols inp cs rs s)) = length (fst s) \<and>
   (\<forall>i<length (fst s). fst (imc_row_loop W rows cols inp cs rs s) ! i =
      (if rs \<le> i \<and> i < rows
       then fst s ! i + dot_range W inp cols i cs (min (cs + 8) cols) else fst s ! i))"
proof (induction W rows cols inp cs rs s rule: imc_row_loop.induct)
  case (1 W rows cols inp cs rs s)
  show ?case
  proof (cases "rs < rows")
    case False
    then have "imc_row_loop W rows cols inp cs rs s = s"
      by (subst imc_row_loop.simps) simp
    with False show ?thesis by auto
  next
    case True
    obtain out d where s: "s = (out, d)" by (cases s)
    define s' where "s' = imc_tile_mac W rows cols inp rs cs s"
    have unf: "imc_row_loop W rows cols inp cs rs s = imc_row_loop W rows cols inp cs (rs + 8) s'"
      using True by (subst imc_row_loop.simps) (simp add: s'_def)
    have len': "length (fst s') = length out"
      unfolding s'_def s by (rule imc_tile_mac_length)
    have nth': "fst s' ! i = (if rs \<le> i \<and> i < rs + 8 \<and> i < rows
       then out ! i + tile_dot W inp rows cols rs cs (i - rs) else out ! i)"
      if "i < length out" for i
      unfolding s'_def s by (rule imc_tile_mac_nth [OF that])
    from "1.IH" [OF True] have IHlen: "length (fst (imc_row_loop W rows cols inp cs (rs + 8) s')) = length (fst s')"
      and IHnth: "\<And>i. i < length (fst s') \<Longrightarrow> fst (imc_row_loop W rows cols inp cs (rs + 8) s') ! i =
        (if rs + 8 \<le> i \<and> i < rows
         then fst s' ! i + dot_range W inp cols i cs (min (cs + 8) cols) else fst s' ! i)"
      unfolding s'_def by blast+
    have "fst (imc_row_loop W rows cols inp cs (rs + 8) s') ! i =
        (if rs \<le> i \<and> i < rows
         then out ! i + dot_range W inp cols i cs (min (cs + 8) cols) else out ! i)"
      if i: "i < length out" for i
    proof -
      from i len' have i': "i < length (fst s')" by simp
      consider "i < rs \<or> rows \<le> i" | "rs \<le> i" "i < rs + 8" "i < rows" | "rs + 8 \<le> i" "i < rows"
        by linarith
      then show ?thesis
      proof cases
        case 1
        then show ?thesis unfolding IHnth [OF i'] nth' [OF i] by auto
      next
        case 2
        then show ?thesis
          unfolding IHnth [OF i'] nth' [OF i] by (simp add: tile_dot_dot_range)
      next
        case 3
        then show ?thesis unfolding IHnth [OF i'] nth' [OF i] by simp
      qed
    qed
    then have B: "\<forall>i<length (fst s). fst (imc_row_loop W rows cols inp cs (rs + 8) s') ! i =
        (if rs \<le> i \<and> i < rows
         then fst s ! i + dot_range W inp cols i cs (min (cs + 8) cols) else fst s ! i)"
      unfolding s fst_conv by blast
    have A: "length (fst (imc_row_loop W rows cols inp cs (rs + 8) s')) = length (fst s)"
      unfolding IHlen len' s fst_conv ..
    show ?thesis unfolding unf using A B by (rule conjI)
  qed
qed

lemma imc_col_loop_inv:
  "length (fst (imc_col_loop W rows cols inp cs s)) = length (fst s) \<and>
   (\<forall>i<length (fst s). fst (imc_col_loop W rows cols inp cs s) ! i =
      (if i < rows
       then fst s ! i + dot_range W inp cols i (min cs cols) cols else fst s ! i))"
proof (induction W rows cols inp cs s rule: imc_col_loop.induct)
  case (1 W rows cols inp cs s)
  show ?case
  proof (cases "cs < cols")
    case False
    then have "min cs cols = cols" by simp
    then show ?thesis
      using False by (subst imc_col_loop.simps, subst (2) imc_col_loop.simps) (simp add: dot_range_def)
  next
    case True
    define s' where "s' = imc_row_loop W rows cols inp cs 0 s"
    have unf: "imc_col_loop W rows cols inp cs s = imc_col_loop W rows cols inp (cs + 8) s'"
      using True by (subst imc_col_loop.simps) (simp add: s'_def)
    from imc_row_loop_inv [of W rows cols inp cs 0 s]
    have len': "length (fst s') = length (fst s)"
      and nth': "\<And>i. i < length (fst s) \<Longrightarrow> fst s' ! i =
        (if i < rows then fst s ! i + dot_range W inp cols i cs (min (cs + 8) cols) else fst s ! i)"
      unfolding s'_def by simp_all
    from "1.IH" [OF True] have IHlen: "length (fst (imc_col_loop W rows cols inp (cs + 8) s')) = length (fst s')"
      and IHnth: "\<And>i. i < length (fst s') \<Longrightarrow> fst (imc_col_loop W rows cols inp (cs + 8) s') ! i =
        (if i < rows
         then fst s' ! i + dot_range W inp cols i (min (cs + 8) cols) cols else fst s' ! i)"
      unfolding s'_def by blast+
    have split: "dot_range W inp cols i cs (min (cs + 8) cols) +
        dot_range W inp cols i (min (cs + 8) cols) cols = dot_range W inp cols i (min cs cols) cols" for i
    proof -
      from True have "min cs cols = cs" by simp
      moreover have "dot_range W inp cols i cs (min (cs + 8) cols) +
        dot_range W inp cols i (min (cs + 8) cols) cols = dot_range W inp cols i cs cols"
        by (rule dot_range_split) (use True in simp_all)
      ultimately show ?thesis by simp
    qed
    have "fst (imc_col_loop W rows cols inp (cs + 8) s') ! i =
        (if i < rows then fst s ! i + dot_range W inp cols i (min cs cols) cols else fst s ! i)"
      if i: "i < length (fst s)" for i
    proof -
      from i len' have i': "i < length (fst s')" by simp
      show ?thesis
        unfolding IHnth [OF i'] nth' [OF i] using split [of i] by (simp add: add.assoc)
    qed
    then have B: "\<forall>i<length (fst s). fst (imc_col_loop W rows cols inp (cs + 8) s') ! i =
        (if i < rows then fst s ! i + dot_range W inp cols i (min cs cols) cols else fst s ! i)"
      by blast
    have A: "length (fst (imc_col_loop W rows cols inp (cs + 8) s')) = length (fst s)"
      unfolding IHlen len' ..
    show ?thesis unfolding unf using A B by (rule conjI)
  qed
qed

lemma fold_add_sum_list:
  fixes f :: "nat \<Rightarrow> i32"
  shows "fold (\<lambda>c acc. acc + f c) xs a = a + sum_list (map f xs)"
  by (induction xs arbitrary: a) (simp_all add: add.assoc)

lemma cpu_row_u8_dot_range: "cpu_row_u8 W inp cols r = dot_range W inp cols r 0 cols"
  unfolding cpu_row_u8_def dot_range_def by (simp add: fold_add_sum_list)

lemma cpu_mv_u8_nth:
  "i < length out \<Longrightarrow> cpu_mv_u8 W inp out rows cols ! i =
     (if i < rows then dot_range W inp cols i 0 cols else out ! i)"
  using fold_upd_upt [of "\<lambda>r _. cpu_row_u8 W inp cols r" rows out]
  by (simp add: cpu_mv_u8_def cpu_row_u8_dot_range)

lemma cpu_mv_u8_length: "length (cpu_mv_u8 W inp out rows cols) = length out"
  using fold_upd_upt [of "\<lambda>r _. cpu_row_u8 W inp cols r" rows out]
  by (simp add: cpu_mv_u8_def)

lemma clear_out_nth:
  "i < length out \<Longrightarrow> clear_out rows out ! i = (if i < rows then 0 else out ! i)"
  using fold_upd_upt [of "\<lambda>r _. 0" rows out] by (simp add: clear_out_def)

lemma clear_out_length: "length (clear_out rows out) = length out"
  using fold_upd_upt [of "\<lambda>r _. 0" rows out] by (simp add: clear_out_def)

lemma imc_layer_execution_length:
  "length (fst (imc_layer_execution W inp out rows cols d)) = length out"
  using imc_col_loop_inv [of W rows cols inp 0 "(clear_out rows out, d)"]
  by (simp add: imc_layer_execution_def clear_out_length)

lemma imc_layer_execution_nth:
  "i < length out \<Longrightarrow> fst (imc_layer_execution W inp out rows cols d) ! i =
     (if i < rows then dot_range W inp cols i 0 cols else out ! i)"
  using imc_col_loop_inv [of W rows cols inp 0 "(clear_out rows out, d)"]
  by (simp add: imc_layer_execution_def clear_out_length clear_out_nth)

lemma imc_layer_execution_eq_cpu:
  "fst (imc_layer_execution W inp out rows cols d) = cpu_mv_u8 W inp out rows cols"
  by (rule nth_equalityI)
    (simp_all add: imc_layer_execution_length cpu_mv_u8_length imc_layer_execution_nth cpu_mv_u8_nth)

section \<open>Bounds of the raw read-back\<close>

lemma load_inputs_length: "length (fst (load_inputs inp cols cs)) = 8"
  using load_inputs_upto [of 8 inp cols cs] unfolding load_inputs_def by blast

lemma input_byte_tile_device:
  "c < 8 \<Longrightarrow> input_byte (tile_device W rows cols inp rs cs d) c = padded_input inp cols cs c"
  by (simp add: tile_device_def input_byte_drive_inputs load_inputs_nth)

lemma cells_tile_device:
  "r < 8 \<Longrightarrow> c < 8 \<Longrightarrow>
   cells (tile_device W rows cols inp rs cs d) (r * 8 + c) = ucast (g_val W rows cols rs cs r c)"
  by (simp add: tile_device_def cells_drive_inputs cells_program_tile)

lemma uint_raw_bound:
  assumes "r < 8"
  shows "uint (IMC_RESULT (tile_device W rows cols inp rs cs d) r) \<le> 520200"
proof -
  have b: "0 \<le> uint (g_val W rows cols rs cs r c) * uint (padded_input inp cols cs c) \<and>
      uint (g_val W rows cols rs cs r c) * uint (padded_input inp cols cs c) \<le> 255 * 255" for c
  proof
    show "0 \<le> uint (g_val W rows cols rs cs r c) * uint (padded_input inp cols cs c)"
      by simp
    show "uint (g_val W rows cols rs cs r c) * uint (padded_input inp cols cs c) \<le> 255 * 255"
      by (rule mult_mono) (simp_all add: uint_g_val_bounds uint8_le)
  qed
  from sum_list_int_bounds [of "[0..<8]" 0
      "\<lambda>c. uint (g_val W rows cols rs cs r c) * uint (padded_input inp cols cs c)" "255 * 255"] b
  show ?thesis unfolding uint_raw [OF assms] by simp
qed

lemma uint_sum_v_bound: "uint (snd (load_inputs inp cols cs)) \<le> 2040"
  using sum_list_int_bounds [of "[0..<8]" 0 "\<lambda>c. uint (padded_input inp cols cs c)" 255] uint8_le
  unfolding uint_sum_v by simp

lemma sint_true_mac_tile:
  assumes "r < 8"
  shows "sint (true_mac (IMC_RESULT (tile_device W rows cols inp rs cs d) r)
           (snd (load_inputs inp cols cs))) = tile_dot_int W inp rows cols rs cs r"
  unfolding true_mac_tile [OF assms] by (rule sint_tile_dot)

lemma sint_small: "- (2 ^ 31) \<le> z \<Longrightarrow> z < 2 ^ 31 \<Longrightarrow> sint (word_of_int z :: i32) = z"
  by (simp add: sint_sbintrunc' signed_take_bit_int_eq_self)

lemma scalar_offset_correction:
  "sint (true_mac (conductance w * ucast x) (ucast (x :: u8))) = sint w * uint x"
proof -
  have "true_mac (conductance w * ucast x) (ucast x) = (word_of_int (sint w * uint x) :: i32)"
    by (simp add: true_mac_def conductance_def algebra_simps)
  moreover have "sint (word_of_int (sint w * uint x) :: i32) = sint w * uint x"
    by (rule sint_small) (use mac_term_bounds [of w x] in simp_all)
  ultimately show ?thesis by (simp only:)
qed

section \<open>Offset correction\<close>

text \<open>
  C2. For every tile and tile row \<open>r < 8\<close>: the input vector \<open>v\<close> is the 8 clamped and
  zero-padded input bytes and \<open>sum_v\<close> is their sum; the raw read-back is the sum of
  \<open>conductance * input\<close> over the row and lies below \<open>2 ^ 31\<close>, as does \<open>128 * sum_v\<close>;
  the corrected value, read as a signed 32-bit integer, is exactly \<open>raw - 128 * sum_v\<close>
  over the integers and equals the signed dot product of the in-bounds weights with the
  inputs. For a single weight \<open>w\<close> and input \<open>x\<close>, \<open>(w + 128) * x - 128 * x = w * x\<close>,
  over the integers and in 32-bit arithmetic.
\<close>

theorem offset_correction_exact:
  assumes "r < 8"
  shows "(let d' = tile_device W rows cols inp r_start c_start d;
              v = fst (load_inputs inp cols c_start);
              sum_v = snd (load_inputs inp cols c_start);
              raw = IMC_RESULT d' r
          in (\<forall>c<8. v ! c = (if c_start + c < cols then inp ! (c_start + c) else 0)) \<and>
             uint sum_v = sum_list (map (\<lambda>c. uint (v ! c)) [0..<8]) \<and>
             uint raw = sum_list (map (\<lambda>c. uint (g_val W rows cols r_start c_start r c) * uint (v ! c)) [0..<8]) \<and>
             uint raw < 2 ^ 31 \<and> 128 * uint sum_v < 2 ^ 31 \<and>
             sint (true_mac raw sum_v) = uint raw - 128 * uint sum_v \<and>
             sint (true_mac raw sum_v) = tile_dot_int W inp rows cols r_start c_start r) \<and>
         (\<forall>w x. uint (conductance w) * uint (x :: u8) - 128 * uint x = sint w * uint x \<and>
                sint (true_mac (conductance w * ucast x) (ucast x)) = sint w * uint x)"
proof -
  have v: "\<forall>c<8. fst (load_inputs inp cols c_start) ! c =
      (if c_start + c < cols then inp ! (c_start + c) else 0)"
    by (simp add: load_inputs_nth padded_input_def)
  have vs: "map (\<lambda>c. f (fst (load_inputs inp cols c_start) ! c)) [0..<8] =
      map (\<lambda>c. f (padded_input inp cols c_start c)) [0..<8]" for f :: "u8 \<Rightarrow> int"
    by (rule map_cong) (simp_all add: load_inputs_nth)
  have vs2: "map (\<lambda>c. uint (g_val W rows cols r_start c_start r c) * uint (fst (load_inputs inp cols c_start) ! c)) [0..<8] =
      map (\<lambda>c. uint (g_val W rows cols r_start c_start r c) * uint (padded_input inp cols c_start c)) [0..<8]"
    by (rule map_cong) (simp_all add: load_inputs_nth)
  have s: "uint (snd (load_inputs inp cols c_start)) =
      sum_list (map (\<lambda>c. uint (fst (load_inputs inp cols c_start) ! c)) [0..<8])"
    unfolding vs by (rule uint_sum_v)
  have raw: "uint (IMC_RESULT (tile_device W rows cols inp r_start c_start d) r) =
      sum_list (map (\<lambda>c. uint (g_val W rows cols r_start c_start r c) *
         uint (fst (load_inputs inp cols c_start) ! c)) [0..<8])"
    unfolding vs2 by (rule uint_raw [OF assms])
  have b1: "uint (IMC_RESULT (tile_device W rows cols inp r_start c_start d) r) < 2 ^ 31"
    using uint_raw_bound [OF assms, of W rows cols inp r_start c_start d] by simp
  have b2: "128 * uint (snd (load_inputs inp cols c_start)) < 2 ^ 31"
    using uint_sum_v_bound [of inp cols c_start] by simp
  have t: "sint (true_mac (IMC_RESULT (tile_device W rows cols inp r_start c_start d) r)
           (snd (load_inputs inp cols c_start))) = tile_dot_int W inp rows cols r_start c_start r"
    by (rule sint_true_mac_tile [OF assms])
  have t': "sint (true_mac (IMC_RESULT (tile_device W rows cols inp r_start c_start d) r)
           (snd (load_inputs inp cols c_start))) =
        uint (IMC_RESULT (tile_device W rows cols inp r_start c_start d) r)
           - 128 * uint (snd (load_inputs inp cols c_start))"
    unfolding t by (rule offset_correction_int [OF assms, symmetric])
  have sc: "\<forall>w x. uint (conductance w) * uint (x :: u8) - 128 * uint x = sint w * uint x \<and>
                sint (true_mac (conductance w * ucast x) (ucast x)) = sint w * uint x"
    by (simp add: scalar_offset_correction uint_conductance algebra_simps)
  show ?thesis unfolding Let_def using v s raw b1 b2 t t' sc by blast
qed

theorem offset_correction_exact_witness:
  "(0::nat) < 8 \<and>
   sint (true_mac (IMC_RESULT (tile_device [1, - 2, 3] 1 3 [4, 5, 6] 0 0 imc_reset) 0)
          (snd (load_inputs [4, 5, 6] 3 0))) = 12"
proof -
  have h: "(0::nat) < 8" by simp
  from offset_correction_exact [OF h, of "[1, - 2, 3]" 1 3 "[4, 5, 6]" 0 0 imc_reset]
  have "sint (true_mac (IMC_RESULT (tile_device [1, - 2, 3] 1 3 [4, 5, 6] 0 0 imc_reset) 0)
          (snd (load_inputs [4, 5, 6] 3 0))) = tile_dot_int [1, - 2, 3] [4, 5, 6] 1 3 0 0 0"
    unfolding Let_def by (elim conjE)
  moreover have "tile_dot_int [1, - 2, 3] [4, 5, 6] 1 3 0 0 0 = 12"
    by (simp add: tile_dot_int_def upt_rec)
  ultimately show ?thesis using h by simp
qed

section \<open>Tiled layer execution against the direct dot product\<close>

lemma cpu_row_u8_exact:
  assumes "cols \<le> 65536"
  shows "sint (cpu_row_u8 W inp cols r) =
     sum_list (map (\<lambda>c. sint (W ! (r * cols + c)) * uint (inp ! c)) [0..<cols])"
proof -
  have "cpu_row_u8 W inp cols r =
      sum_list (map (\<lambda>c. word_of_int (sint (W ! (r * cols + c)) * uint (inp ! c))) [0..<cols])"
    unfolding cpu_row_u8_dot_range dot_range_def by simp
  moreover have "sint (sum_list (map (\<lambda>c. word_of_int (sint (W ! (r * cols + c)) * uint (inp ! c)))
        [0..<cols]) :: i32) =
      sum_list (map (\<lambda>c. sint (W ! (r * cols + c)) * uint (inp ! c)) [0..<cols])"
  proof (rule sint_sum_list_small [where hi = "128 * 255"])
    fix c
    show "- (128 * 255) \<le> sint (W ! (r * cols + c)) * uint (inp ! c) \<and>
        sint (W ! (r * cols + c)) * uint (inp ! c) \<le> 128 * 255"
      using mac_term_bounds [of "W ! (r * cols + c)" "inp ! c"] by simp
    from assms have "int cols * (128 * 255) \<le> 65536 * (128 * 255)" by simp
    then show "int (length [0..<cols]) * (128 * 255) < 2 ^ 31" by simp
  qed
  ultimately show ?thesis by (simp only:)
qed

text \<open>
  C1. For every weight matrix \<open>W\<close> of \<open>rows \<times> cols\<close> signed bytes, every unsigned
  8-bit input vector of \<open>cols\<close> entries and every accumulator buffer of \<open>rows\<close>
  entries, \<open>imc_layer_execution\<close> leaves in the accumulator exactly the vector that
  \<open>cpu_mv_u8\<close> computes, whatever the device held before. The sizes are arbitrary,
  so the statement covers \<open>rows, cols \<in> {1, 7, 8, 9, 16, 23}\<close>. Up to 65536 columns no
  32-bit sum overflows: each output, read as signed, is the dot product over the
  integers.
\<close>

theorem imc_layer_matches_cpu:
  assumes "length W = rows * cols" and "length inp = cols" and "length out = rows"
  shows "fst (imc_layer_execution W inp out rows cols d) = cpu_mv_u8 W inp out rows cols \<and>
    (cols \<le> 65536 \<longrightarrow>
       (\<forall>r<rows. sint (fst (imc_layer_execution W inp out rows cols d) ! r) =
          sum_list (map (\<lambda>c. sint (W ! (r * cols + c)) * uint (inp ! c)) [0..<cols])))"
proof -
  have e: "fst (imc_layer_execution W inp out rows cols d) = cpu_mv_u8 W inp out rows cols"
    by (rule imc_layer_execution_eq_cpu)
  have "sint (cpu_mv_u8 W inp out rows cols ! r) =
      sum_list (map (\<lambda>c. sint (W ! (r * cols + c)) * uint (inp ! c)) [0..<cols])"
    if "cols \<le> 65536" "r < rows" for r
    using that assms(3) cpu_row_u8_exact [OF that(1), of W inp r]
    by (simp add: cpu_mv_u8_nth cpu_row_u8_dot_range)
  with e show ?thesis by simp
qed

theorem imc_layer_matches_cpu_witness:
  "length [1, - 2, 3 :: i8] = 1 * 3 \<and> length [4, 5, 6 :: u8] = 3 \<and> length [0 :: i32] = 1 \<and>
   fst (imc_layer_execution [1, - 2, 3] [4, 5, 6] [0] 1 3 imc_reset) =
     cpu_mv_u8 [1, - 2, 3] [4, 5, 6] [0] 1 3 \<and>
   cpu_mv_u8 [1, - 2, 3] [4, 5, 6] [0] 1 3 = [12]"
proof -
  have "cpu_mv_u8 [1, - 2, 3] [4, 5, 6] [0] 1 3 = [12]"
    by (simp add: cpu_mv_u8_def cpu_row_u8_def upt_rec)
  then show ?thesis
    using imc_layer_matches_cpu [of "[1, - 2, 3]" 1 3 "[4, 5, 6]" "[0]" imc_reset] by simp
qed

section \<open>Frame of a tile operation\<close>

text \<open>
  C9. A tile operation at \<open>(r_start, c_start)\<close> keeps the length of the accumulator,
  leaves every entry outside \<open>r_start .. r_start + 7\<close> and every entry with index
  \<open>\<ge> rows\<close> as it was, and adds the corrected result of tile row \<open>i - r_start\<close> to each
  entry \<open>i\<close> of the window that is below \<open>rows\<close>. The whole layer execution leaves
  every entry with index \<open>\<ge> rows\<close> as it was.
\<close>

theorem tile_writes_only_its_rows:
  assumes "rows \<le> length out"
  shows "length (fst (imc_tile_mac W rows cols inp r_start c_start (out, d))) = length out \<and>
    (\<forall>i<length out. \<not> (r_start \<le> i \<and> i < r_start + 8 \<and> i < rows) \<longrightarrow>
        fst (imc_tile_mac W rows cols inp r_start c_start (out, d)) ! i = out ! i) \<and>
    (\<forall>i<length out. r_start \<le> i \<and> i < r_start + 8 \<and> i < rows \<longrightarrow>
        fst (imc_tile_mac W rows cols inp r_start c_start (out, d)) ! i =
          out ! i + true_mac (IMC_RESULT (tile_device W rows cols inp r_start c_start d) (i - r_start))
                      (snd (load_inputs inp cols c_start))) \<and>
    length (fst (imc_layer_execution W inp out rows cols d)) = length out \<and>
    (\<forall>i<length out. rows \<le> i \<longrightarrow>
        fst (imc_layer_execution W inp out rows cols d) ! i = out ! i)"
proof (intro conjI allI impI)
  show "length (fst (imc_tile_mac W rows cols inp r_start c_start (out, d))) = length out"
    by (rule imc_tile_mac_length)
  show "length (fst (imc_layer_execution W inp out rows cols d)) = length out"
    by (rule imc_layer_execution_length)
next
  fix i assume "i < length out" "\<not> (r_start \<le> i \<and> i < r_start + 8 \<and> i < rows)"
  then show "fst (imc_tile_mac W rows cols inp r_start c_start (out, d)) ! i = out ! i"
    by (simp only: imc_tile_mac_nth if_False)
next
  fix i assume i: "i < length out" "r_start \<le> i \<and> i < r_start + 8 \<and> i < rows"
  then have "i - r_start < 8" by arith
  from true_mac_tile [OF this, of W rows cols inp r_start c_start d] i
  show "fst (imc_tile_mac W rows cols inp r_start c_start (out, d)) ! i =
          out ! i + true_mac (IMC_RESULT (tile_device W rows cols inp r_start c_start d) (i - r_start))
                      (snd (load_inputs inp cols c_start))"
    by (simp add: imc_tile_mac_nth)
next
  fix i assume "i < length out" "rows \<le> i"
  then show "fst (imc_layer_execution W inp out rows cols d) ! i = out ! i"
    by (simp add: imc_layer_execution_nth)
qed

theorem tile_writes_only_its_rows_witness:
  "(1::nat) \<le> length [7, 9 :: i32] \<and>
   fst (imc_tile_mac [1, - 2, 3] 1 3 [4, 5, 6] 0 0 ([7, 9], imc_reset)) ! 1 = 9 \<and>
   fst (imc_layer_execution [1, - 2, 3] [4, 5, 6] [7, 9] 1 3 imc_reset) ! 1 = 9"
  using tile_writes_only_its_rows [of 1 "[7, 9]" "[1, - 2, 3]" 3 "[4, 5, 6]" 0 0 imc_reset]
  by simp

section \<open>Padding of edge tiles\<close>

text \<open>
  C4. For every tile position and every tile row \<open>r\<close>: a cell \<open>(r, c)\<close> that maps beyond
  the true \<open>rows\<close> or \<open>cols\<close> is programmed to 128 and its term of the raw sum is
  cancelled by the offset correction; an input position beyond \<open>cols\<close> is driven as 0;
  the corrected result of row \<open>r\<close> is the sum of \<open>weight * input\<close> over the in-bounds
  cells of that row only, and it is 0 for a tile row beyond \<open>rows\<close>.
\<close>

theorem padding_contributes_zero:
  assumes "r < 8"
  shows "(let d' = tile_device W rows cols inp r_start c_start d;
              v = fst (load_inputs inp cols c_start);
              sum_v = snd (load_inputs inp cols c_start)
          in (\<forall>c<8. \<not> (r_start + r < rows \<and> c_start + c < cols) \<longrightarrow>
                cells d' (r * 8 + c) = 128 \<and>
                uint (cells d' (r * 8 + c)) * uint (input_byte d' c) - 128 * uint (v ! c) = 0) \<and>
             (\<forall>c<8. \<not> c_start + c < cols \<longrightarrow> v ! c = 0 \<and> input_byte d' c = 0) \<and>
             sint (true_mac (IMC_RESULT d' r) sum_v) =
               sum_list (map (\<lambda>c. sint (W ! ((r_start + r) * cols + (c_start + c))) *
                                   uint (inp ! (c_start + c)))
                  (filter (\<lambda>c. r_start + r < rows \<and> c_start + c < cols) [0..<8])) \<and>
             (\<not> r_start + r < rows \<longrightarrow> true_mac (IMC_RESULT d' r) sum_v = 0))"
proof -
  have oob: "cells (tile_device W rows cols inp r_start c_start d) (r * 8 + c) = 128 \<and>
      uint (cells (tile_device W rows cols inp r_start c_start d) (r * 8 + c)) *
        uint (input_byte (tile_device W rows cols inp r_start c_start d) c)
        - 128 * uint (fst (load_inputs inp cols c_start) ! c) = 0"
    if "c < 8" "\<not> (r_start + r < rows \<and> c_start + c < cols)" for c
  proof -
    from that(2) have g: "g_val W rows cols r_start c_start r c = 128"
      unfolding g_val_def Let_def by (rule if_not_P)
    show ?thesis
      unfolding cells_tile_device [OF assms that(1)] input_byte_tile_device [OF that(1)]
        load_inputs_nth [OF that(1)] g
      by simp
  qed
  have pad: "fst (load_inputs inp cols c_start) ! c = 0 \<and>
      input_byte (tile_device W rows cols inp r_start c_start d) c = 0"
    if "c < 8" "\<not> c_start + c < cols" for c
    using that by (simp add: input_byte_tile_device load_inputs_nth padded_input_def)
  have s: "sint (true_mac (IMC_RESULT (tile_device W rows cols inp r_start c_start d) r)
        (snd (load_inputs inp cols c_start))) =
      sum_list (map (\<lambda>c. sint (W ! ((r_start + r) * cols + (c_start + c))) *
                                   uint (inp ! (c_start + c)))
                  (filter (\<lambda>c. r_start + r < rows \<and> c_start + c < cols) [0..<8]))"
    unfolding sint_true_mac_tile [OF assms] tile_dot_int_def
    by (simp only: sum_list_map_filter')
  have z: "true_mac (IMC_RESULT (tile_device W rows cols inp r_start c_start d) r)
        (snd (load_inputs inp cols c_start)) = 0" if "\<not> r_start + r < rows"
    unfolding true_mac_tile [OF assms] tile_dot_def using that by simp
  show ?thesis unfolding Let_def using oob pad s z by blast
qed

theorem padding_contributes_zero_witness:
  "(0::nat) < 8 \<and>
   cells (tile_device [1, - 2, 3] 1 3 [4, 5, 6] 0 0 imc_reset) (0 * 8 + 3) = 128 \<and>
   input_byte (tile_device [1, - 2, 3] 1 3 [4, 5, 6] 0 0 imc_reset) 3 = 0"
proof -
  have h: "(0::nat) < 8" by simp
  from padding_contributes_zero [OF h, where W = "[1, - 2, 3]" and rows = 1 and cols = 3
      and inp = "[4, 5, 6]" and r_start = 0 and c_start = 0 and d = imc_reset]
  show ?thesis unfolding Let_def by simp
qed

section \<open>Truncating division and the range of the activations\<close>

lemma sdiv_nonneg_abs_le:
  fixes a b :: int
  assumes "0 \<le> a"
  shows "\<bar>a sdiv b\<bar> \<le> a"
proof -
  have q0: "0 \<le> a div \<bar>b\<bar>"
    using assms by (simp add: div_int_pos_iff)
  have qa: "a div \<bar>b\<bar> \<le> a"
  proof (cases "b = 0")
    case True
    with assms show ?thesis by simp
  next
    case False
    then have "0 < \<bar>b\<bar>" by simp
    then have "a div \<bar>b\<bar> \<le> a div 1"
      by (intro zdiv_mono2 assms) simp_all
    then show ?thesis by simp
  qed
  have "a sdiv b = sgn a * sgn b * (a div \<bar>b\<bar>)"
    using assms by (simp add: signed_divide_int_def)
  then have "\<bar>a sdiv b\<bar> = \<bar>sgn a * sgn b\<bar> * (a div \<bar>b\<bar>)"
    using q0 by (simp add: abs_mult)
  also have "\<dots> \<le> 1 * (a div \<bar>b\<bar>)"
    by (rule mult_right_mono) (simp_all add: q0 abs_mult abs_sgn_eq)
  finally show ?thesis using qa by simp
qed

lemma sdiv_pos_pos:
  fixes a b :: int
  assumes "0 \<le> a" "0 < b"
  shows "a sdiv b = a div b"
  using assms by (cases "a = 0") (simp_all add: signed_divide_int_def)

lemma relu_nonneg:
  fixes v :: i32
  shows "sint (if v <s 0 then 0 else v) = max 0 (sint v)"
  by (simp add: word_sless_alt max_def)

lemma c_div_nonneg:
  fixes v hdiv :: i32
  assumes "0 \<le> sint v" "hdiv \<noteq> 0"
  shows "c_div v hdiv = Some (word_of_int (sint v sdiv sint hdiv))"
    and "sint (word_of_int (sint v sdiv sint hdiv) :: i32) = sint v sdiv sint hdiv"
proof -
  show "c_div v hdiv = Some (word_of_int (sint v sdiv sint hdiv))"
    using assms(2) by (simp add: c_div_def)
  have "\<bar>sint v sdiv sint hdiv\<bar> \<le> sint v"
    by (rule sdiv_nonneg_abs_le [OF assms(1)])
  moreover have "sint v < 2 ^ 31" using sint_lt [of v] by simp
  ultimately show "sint (word_of_int (sint v sdiv sint hdiv) :: i32) = sint v sdiv sint hdiv"
    by (intro sint_small) linarith+
qed

lemma hidden_post_value:
  assumes "hdiv \<noteq> 0"
  shows "hidden_post hdiv acc b =
     Some (if 127 < post_quotient hdiv acc b then 127 else word_of_int (post_quotient hdiv acc b))"
proof -
  define v where "v = (if acc + b <s 0 then 0 else acc + b)"
  have v: "sint v = max 0 (sint (acc + b))" unfolding v_def by (rule relu_nonneg)
  then have v0: "0 \<le> sint v" by simp
  define q :: i32 where "q = word_of_int (sint v sdiv sint hdiv)"
  have cq: "c_div v hdiv = Some q" unfolding q_def by (rule c_div_nonneg(1) [OF v0 assms])
  have sq: "sint q = post_quotient hdiv acc b"
    unfolding q_def post_quotient_def v [symmetric] by (rule c_div_nonneg(2) [OF v0 assms])
  have lt: "(127 <s q) = (127 < post_quotient hdiv acc b)"
    by (simp add: word_sless_alt sq)
  have "(ucast (word_of_int (sint v sdiv sint hdiv) :: i32) :: i8) =
      word_of_int (sint v sdiv sint hdiv)"
    by (rule ucast_down_wi) (simp add: is_down)
  then have uc: "(ucast q :: i8) = word_of_int (post_quotient hdiv acc b)"
    unfolding q_def post_quotient_def v .
  have "hidden_post hdiv acc b = Some (if 127 <s q then 127 else ucast q)"
    unfolding hidden_post_def Let_def v_def [symmetric] cq by simp
  then show ?thesis unfolding lt uc .
qed

lemma hidden_post_Some: "hdiv \<noteq> 0 \<Longrightarrow> hidden_post hdiv acc b = Some (hidden_val hdiv acc b)"
  unfolding hidden_val_def by (rule hidden_post_value)

lemma hidden_post_zero_divisor: "hidden_post 0 acc b = None"
  by (simp add: hidden_post_def c_div_def Let_def)

lemma post_quotient_pos:
  assumes "0 <s hdiv"
  shows "post_quotient hdiv acc b = max 0 (sint (acc + b)) div sint hdiv"
    and "0 \<le> post_quotient hdiv acc b"
proof -
  from assms have h: "0 < sint hdiv" by (simp add: word_sless_alt)
  show e: "post_quotient hdiv acc b = max 0 (sint (acc + b)) div sint hdiv"
    unfolding post_quotient_def by (rule sdiv_pos_pos) (use h in simp_all)
  show "0 \<le> post_quotient hdiv acc b"
    unfolding e using h by (simp add: div_int_pos_iff)
qed

lemma sint8_small: "- 128 \<le> z \<Longrightarrow> z < 128 \<Longrightarrow> sint (word_of_int z :: i8) = z"
  by (simp add: sint_sbintrunc' signed_take_bit_int_eq_self)

lemma hidden_val_range:
  assumes "0 <s hdiv"
  shows "sint (hidden_val hdiv acc b) = min 127 (max 0 (sint (acc + b)) div sint hdiv)"
    and "0 \<le> sint (hidden_val hdiv acc b)" and "sint (hidden_val hdiv acc b) \<le> 127"
proof -
  note q = post_quotient_pos [OF assms, of acc b]
  show e: "sint (hidden_val hdiv acc b) = min 127 (max 0 (sint (acc + b)) div sint hdiv)"
  proof (cases "127 < post_quotient hdiv acc b")
    case True
    then show ?thesis unfolding hidden_val_def q(1) by simp
  next
    case False
    then have "sint (word_of_int (post_quotient hdiv acc b) :: i8) = post_quotient hdiv acc b"
      using q(2) by (intro sint8_small) linarith+
    with False show ?thesis unfolding hidden_val_def q(1) by simp
  qed
  show "0 \<le> sint (hidden_val hdiv acc b)" "sint (hidden_val hdiv acc b) \<le> 127"
    unfolding e using q(2) unfolding q(1) by simp_all
qed

lemma nonneg_scast_ucast:
  fixes x :: i8
  assumes "0 \<le> sint x"
  shows "(scast x :: i32) = ucast x" and "uint x = sint x"
proof -
  have sx: "sint x = (uint x + 128) mod 256 - 128"
    by (simp add: sint_uint signed_take_bit_eq_take_bit_shift take_bit_eq_mod)
  show u: "uint x = sint x"
  proof (cases "uint x < 128")
    case True
    with uint8_bounds(1) [of x] show ?thesis unfolding sx by simp
  next
    case False
    with uint8_bounds(2) [of x] have "(uint x + 128) mod 256 = uint x - 128"
      by (simp add: mod_pos_geq)
    with assms have "256 \<le> uint x" unfolding sx by simp
    with uint8_le [of x] show ?thesis by simp
  qed
  have "(scast x :: i32) = word_of_int (sint x)" by simp
  also have "\<dots> = word_of_int (uint x)" by (simp only: u)
  also have "\<dots> = ucast x" by simp
  finally show "(scast x :: i32) = ucast x" .
qed

lemma hidden_layer_post_upto:
  assumes "hdiv \<noteq> 0"
  shows "\<exists>hact. fold (\<lambda>i st. case st of None \<Rightarrow> None
            | Some act \<Rightarrow> (case hidden_post hdiv (acc ! i) (b ! i) of
                 None \<Rightarrow> None | Some h \<Rightarrow> Some (act[i := h])))
          [0..<n] (Some act) = Some hact \<and> length hact = length act \<and>
       (\<forall>i<length act. hact ! i = (if i < n then hidden_val hdiv (acc ! i) (b ! i) else act ! i))"
proof (induction n)
  case 0
  show ?case by simp
next
  case (Suc n)
  then obtain hact where
    f: "fold (\<lambda>i st. case st of None \<Rightarrow> None
            | Some act \<Rightarrow> (case hidden_post hdiv (acc ! i) (b ! i) of
                 None \<Rightarrow> None | Some h \<Rightarrow> Some (act[i := h])))
          [0..<n] (Some act) = Some hact"
    and len: "length hact = length act"
    and nth: "\<And>i. i < length act \<Longrightarrow>
        hact ! i = (if i < n then hidden_val hdiv (acc ! i) (b ! i) else act ! i)"
    by blast
  have "fold (\<lambda>i st. case st of None \<Rightarrow> None
            | Some act \<Rightarrow> (case hidden_post hdiv (acc ! i) (b ! i) of
                 None \<Rightarrow> None | Some h \<Rightarrow> Some (act[i := h])))
          [0..<Suc n] (Some act) = Some (hact[n := hidden_val hdiv (acc ! n) (b ! n)])"
    unfolding upt_Suc_append [OF le0] fold_append comp_apply f
    by (simp add: hidden_post_Some [OF assms])
  moreover have "length (hact[n := hidden_val hdiv (acc ! n) (b ! n)]) = length act"
    using len by simp
  moreover have "\<forall>i<length act. hact[n := hidden_val hdiv (acc ! n) (b ! n)] ! i =
      (if i < Suc n then hidden_val hdiv (acc ! i) (b ! i) else act ! i)"
    using len nth by (auto simp: nth_list_update less_Suc_eq)
  ultimately show ?case by blast
qed

lemma hidden_layer_post_Some:
  assumes "H_DIV P \<noteq> 0" "length act = HIDDEN_SIZE P"
  shows "hidden_layer_post P acc act =
     Some (map (\<lambda>i. hidden_val (H_DIV P) (acc ! i) (b1_int32 P ! i)) [0..<HIDDEN_SIZE P])"
proof -
  from hidden_layer_post_upto [OF assms(1), of acc "b1_int32 P" "HIDDEN_SIZE P" act]
  obtain hact where f: "hidden_layer_post P acc act = Some hact"
    and len: "length hact = length act"
    and nth: "\<And>i. i < length act \<Longrightarrow> hact ! i =
      (if i < HIDDEN_SIZE P then hidden_val (H_DIV P) (acc ! i) (b1_int32 P ! i) else act ! i)"
    unfolding hidden_layer_post_def by blast
  have "hact = map (\<lambda>i. hidden_val (H_DIV P) (acc ! i) (b1_int32 P ! i)) [0..<HIDDEN_SIZE P]"
    by (rule nth_equalityI) (simp_all add: len assms(2) nth)
  with f show ?thesis by simp
qed

lemma fold_add_cong:
  fixes f g :: "nat \<Rightarrow> i32"
  assumes "\<And>c. c \<in> set xs \<Longrightarrow> f c = g c"
  shows "fold (\<lambda>c acc. acc + f c) xs a = fold (\<lambda>c acc. acc + g c) xs a"
  unfolding fold_add_sum_list using assms by (simp cong: map_cong)

lemma cpu_mv_i8_eq_u8:
  assumes "\<And>c. c < cols \<Longrightarrow> 0 \<le> sint (inp ! c)"
  shows "cpu_mv_i8 W inp out rows cols = cpu_mv_u8 W inp out rows cols"
proof -
  have "cpu_row_i8 W inp cols r = cpu_row_u8 W inp cols r" for r
    unfolding cpu_row_i8_def cpu_row_u8_def
    by (rule fold_add_cong) (simp add: nonneg_scast_ucast(1) assms)
  then show ?thesis unfolding cpu_mv_i8_def cpu_mv_u8_def by simp
qed

section \<open>The post-processing of one accumulator value\<close>

text \<open>
  C7. With a non-zero divisor, the post-processing of one accumulator value returns: the
  32-bit sum of accumulator and bias, clipped below at 0, divided by \<open>H_DIV\<close> with
  truncation towards zero (\<open>post_quotient\<close>), and then 127 if that quotient exceeds 127,
  else its low 8 bits. For a positive divisor the stored value, read as signed, is
  \<open>min 127 (max 0 v div H_DIV)\<close>. A quotient of 130 is stored as 127, 128 as 127 and 127
  as 127; a sum of -40 is clipped to 0; 127 / 64 is 1 and 127 / -64 is -1.
\<close>

theorem hidden_post_steps:
  assumes "hdiv \<noteq> 0"
  shows "hidden_post hdiv acc b =
           Some (if 127 < post_quotient hdiv acc b then 127
                 else word_of_int (post_quotient hdiv acc b)) \<and>
         post_quotient hdiv acc b = max 0 (sint (acc + b)) sdiv sint hdiv \<and>
         (0 <s hdiv \<longrightarrow>
            (\<exists>h. hidden_post hdiv acc b = Some h \<and>
                 sint h = min 127 (max 0 (sint (acc + b)) div sint hdiv))) \<and>
         post_quotient 64 8320 0 = 130 \<and> hidden_post 64 8320 0 = Some 127 \<and>
         hidden_post 1 128 0 = Some 127 \<and> hidden_post 1 127 0 = Some 127 \<and>
         hidden_post 1 126 0 = Some 126 \<and>
         post_quotient 1 (- 40) 0 = 0 \<and> hidden_post 64 (- 40) 0 = Some 0 \<and>
         hidden_post 64 (- 100) 60 = Some 0 \<and>
         hidden_post 64 127 0 = Some 1 \<and> hidden_post (- 64) 127 0 = Some (- 1)"
proof -
  have s1: "sint (- 40 + 0 :: i32) = - 40" "sint (- 100 + 60 :: i32) = - 40"
    "sint (8320 + 0 :: i32) = 8320" "sint (127 + 0 :: i32) = 127" "sint (128 + 0 :: i32) = 128"
    "sint (126 + 0 :: i32) = 126" "sint (64 :: i32) = 64" "sint (- 64 :: i32) = - 64"
    "sint (1 :: i32) = 1"
    by simp_all
  have q: "post_quotient 64 8320 0 = 130" "post_quotient 1 128 0 = 128"
    "post_quotient 1 127 0 = 127" "post_quotient 1 126 0 = 126" "post_quotient 1 (- 40) 0 = 0"
    "post_quotient 64 (- 40) 0 = 0" "post_quotient 64 (- 100) 60 = 0"
    "post_quotient 64 127 0 = 1" "post_quotient (- 64) 127 0 = - 1"
    unfolding post_quotient_def s1 by (simp_all add: signed_divide_int_def)
  have ex: "hidden_post 64 8320 0 = Some 127" "hidden_post 1 128 0 = Some 127"
    "hidden_post 1 127 0 = Some 127" "hidden_post 1 126 0 = Some 126"
    "hidden_post 64 (- 40) 0 = Some 0" "hidden_post 64 (- 100) 60 = Some 0"
    "hidden_post 64 127 0 = Some 1" "hidden_post (- 64) 127 0 = Some (- 1)"
    by (simp_all add: hidden_post_value q)
  have pos: "\<exists>h. hidden_post hdiv acc b = Some h \<and>
      sint h = min 127 (max 0 (sint (acc + b)) div sint hdiv)" if "0 <s hdiv"
    using hidden_post_Some [OF assms, of acc b] hidden_val_range(1) [OF that, of acc b] by simp
  show ?thesis
    using hidden_post_value [OF assms, of acc b] pos q(1,5) ex
    unfolding post_quotient_def [of hdiv acc b, symmetric] by simp
qed

theorem hidden_post_steps_witness:
  "(64 :: i32) \<noteq> 0 \<and> hidden_post 64 6400 0 = Some 100"
proof -
  have h: "(64 :: i32) \<noteq> 0" by simp
  have "sint (6400 + 0 :: i32) = 6400" "sint (64 :: i32) = 64" by simp_all
  then have "post_quotient 64 6400 0 = 100"
    unfolding post_quotient_def by (simp add: signed_divide_int_def)
  with hidden_post_steps [OF h, of 6400 0] h show ?thesis by simp
qed

section \<open>Hidden activations as unsigned bytes\<close>

lemma cpu_mv_u8_full:
  assumes "length out = rows"
  shows "cpu_mv_u8 W inp out rows cols = map (\<lambda>r. dot_range W inp cols r 0 cols) [0..<rows]"
  by (rule nth_equalityI) (simp_all add: cpu_mv_u8_length cpu_mv_u8_nth assms)

lemma hidden_act_nonneg:
  assumes "0 <s H_DIV P" "length act = HIDDEN_SIZE P"
    and "hidden_layer_post P acc act = Some hact" "i < HIDDEN_SIZE P"
  shows "0 \<le> sint (hact ! i)" "sint (hact ! i) \<le> 127"
proof -
  from assms(1) have nz: "H_DIV P \<noteq> 0" by auto
  from hidden_layer_post_Some [OF nz assms(2), of acc] assms(3)
  have "hact = map (\<lambda>i. hidden_val (H_DIV P) (acc ! i) (b1_int32 P ! i)) [0..<HIDDEN_SIZE P]"
    by simp
  with assms(4) have "hact ! i = hidden_val (H_DIV P) (acc ! i) (b1_int32 P ! i)" by simp
  then show "0 \<le> sint (hact ! i)" "sint (hact ! i) \<le> 127"
    using hidden_val_range(2,3) [OF assms(1)] by simp_all
qed

text \<open>
  C10. With a positive divisor and a hidden-activation buffer of \<open>HIDDEN_SIZE\<close> entries,
  the post-processing loop returns a buffer whose every entry, read as signed, lies
  in \<open>[0, 127]\<close>; read as unsigned it has the same value, and zero-extension to 32 bits
  equals sign-extension. Hence the IMC layer pass over these bytes, which zero-extends
  its input, leaves in the accumulator exactly what \<open>cpu_mv_i8\<close>, which sign-extends it,
  computes, for every weight matrix and every accumulator of at least \<open>rows\<close> entries.
\<close>

theorem hidden_act_reinterpret_exact:
  assumes "0 <s H_DIV P" "length act = HIDDEN_SIZE P"
  shows "\<exists>hact. hidden_layer_post P acc act = Some hact \<and> length hact = HIDDEN_SIZE P \<and>
     (\<forall>i<HIDDEN_SIZE P. 0 \<le> sint (hact ! i) \<and> sint (hact ! i) \<le> 127 \<and>
        uint (hact ! i) = sint (hact ! i) \<and> (ucast (hact ! i) :: i32) = scast (hact ! i)) \<and>
     (\<forall>W out rows d. rows \<le> length out \<longrightarrow>
        fst (imc_layer_execution W hact out rows (HIDDEN_SIZE P) d) =
        cpu_mv_i8 W hact out rows (HIDDEN_SIZE P))"
proof -
  from assms(1) have nz: "H_DIV P \<noteq> 0" by auto
  define hact where "hact = map (\<lambda>i. hidden_val (H_DIV P) (acc ! i) (b1_int32 P ! i)) [0..<HIDDEN_SIZE P]"
  have f: "hidden_layer_post P acc act = Some hact"
    unfolding hact_def by (rule hidden_layer_post_Some [OF nz assms(2)])
  have len: "length hact = HIDDEN_SIZE P" by (simp add: hact_def)
  have r: "0 \<le> sint (hact ! i)" "sint (hact ! i) \<le> 127" if "i < HIDDEN_SIZE P" for i
    using hidden_act_nonneg [OF assms f that] by simp_all
  have u: "uint (hact ! i) = sint (hact ! i) \<and> (ucast (hact ! i) :: i32) = scast (hact ! i)"
    if "i < HIDDEN_SIZE P" for i
    using nonneg_scast_ucast [OF r(1) [OF that]] by simp
  have l: "fst (imc_layer_execution W hact out rows (HIDDEN_SIZE P) d) =
        cpu_mv_i8 W hact out rows (HIDDEN_SIZE P)" for W out rows d
    unfolding imc_layer_execution_eq_cpu by (rule cpu_mv_i8_eq_u8 [symmetric]) (rule r(1))
  show ?thesis using f len r u l by blast
qed

theorem hidden_act_reinterpret_exact_witness:
  "0 <s H_DIV tiny_params \<and> length [0 :: i8] = HIDDEN_SIZE tiny_params \<and>
   (\<exists>hact. hidden_layer_post tiny_params [28] [0] = Some hact \<and>
      fst (imc_layer_execution (w2_int8 tiny_params) hact [0, 0] 2 (HIDDEN_SIZE tiny_params) imc_reset) =
        cpu_mv_i8 (w2_int8 tiny_params) hact [0, 0] 2 (HIDDEN_SIZE tiny_params))"
proof -
  have h: "0 <s H_DIV tiny_params" "length [0 :: i8] = HIDDEN_SIZE tiny_params"
    by (simp_all add: tiny_params_def word_sless_alt)
  have "(2 :: nat) \<le> length [0, 0 :: i32]" by simp
  with hidden_act_reinterpret_exact [OF h, of "[28]"] h show ?thesis by blast
qed

section \<open>The two inference strategies\<close>

text \<open>
  C3. With a positive divisor and the three file-scope buffers at their declared sizes,
  \<open>infer_cpu\<close> and \<open>infer_imc\<close> both return, and return the same class index (and
  leave the same contents in the buffers), for every image: in particular for each
  image of the test set, whatever the buffers and the device held before the call.
\<close>

theorem infer_imc_agrees_with_cpu:
  assumes "0 <s H_DIV P" "wf_statics P st" "wf_statics P st'"
  shows "\<exists>k s. infer_cpu P img st = Some (k, s) \<and>
           (\<exists>d'. infer_imc P img (st', d) = Some (k, s, d')) \<and>
           (OUTPUT_SIZE P \<noteq> 0 \<longrightarrow> k < OUTPUT_SIZE P)"
proof -
  from assms(1) have nz: "H_DIV P \<noteq> 0" by auto
  from assms(2,3) have len:
    "length (hidden_acc st) = HIDDEN_SIZE P" "length (hidden_act st) = HIDDEN_SIZE P"
    "length (output_acc st) = OUTPUT_SIZE P"
    "length (hidden_acc st') = HIDDEN_SIZE P" "length (hidden_act st') = HIDDEN_SIZE P"
    "length (output_acc st') = OUTPUT_SIZE P"
    by (simp_all add: wf_statics_def)
  define hacc where "hacc = cpu_mv_u8 (w1_int8 P) img (hidden_acc st) (HIDDEN_SIZE P) (INPUT_SIZE P)"
  have hacc': "fst (imc_layer_execution (w1_int8 P) img (hidden_acc st') (HIDDEN_SIZE P)
      (INPUT_SIZE P) d) = hacc"
    unfolding hacc_def imc_layer_execution_eq_cpu
    by (simp only: cpu_mv_u8_full [OF len(1)] cpu_mv_u8_full [OF len(4)])
  define hact where "hact = map (\<lambda>i. hidden_val (H_DIV P) (hacc ! i) (b1_int32 P ! i)) [0..<HIDDEN_SIZE P]"
  have p1: "hidden_layer_post P hacc (hidden_act st) = Some hact"
    unfolding hact_def by (rule hidden_layer_post_Some [OF nz len(2)])
  have p2: "hidden_layer_post P hacc (hidden_act st') = Some hact"
    unfolding hact_def by (rule hidden_layer_post_Some [OF nz len(5)])
  have nonneg: "0 \<le> sint (hact ! c)" if "c < HIDDEN_SIZE P" for c
    by (rule hidden_act_nonneg(1) [OF assms(1) len(2) p1 that])
  have iu: "cpu_mv_i8 (w2_int8 P) hact out (OUTPUT_SIZE P) (HIDDEN_SIZE P) =
      cpu_mv_u8 (w2_int8 P) hact out (OUTPUT_SIZE P) (HIDDEN_SIZE P)" for out
    by (rule cpu_mv_i8_eq_u8) (rule nonneg)
  define oacc where "oacc = cpu_mv_i8 (w2_int8 P) hact (output_acc st) (OUTPUT_SIZE P) (HIDDEN_SIZE P)"
  have oacc': "fst (imc_layer_execution (w2_int8 P) hact (output_acc st') (OUTPUT_SIZE P)
      (HIDDEN_SIZE P) d2) = oacc" for d2
    unfolding oacc_def imc_layer_execution_eq_cpu iu
    by (simp only: cpu_mv_u8_full [OF len(3)] cpu_mv_u8_full [OF len(6)])
  define k where "k = argmax (output_bias P oacc) (OUTPUT_SIZE P)"
  define s where "s = \<lparr>hidden_acc = hacc, hidden_act = hact, output_acc = output_bias P oacc\<rparr>"
  have c: "infer_cpu P img st = Some (k, s)"
    unfolding infer_cpu_def Let_def hacc_def [symmetric] p1 option.case oacc_def [symmetric]
      k_def s_def ..
  have i: "\<exists>d'. infer_imc P img (st', d) = Some (k, s, d')"
    by (simp add: infer_imc_def Let_def split_beta hacc' p2 oacc' k_def s_def)
  have "k < OUTPUT_SIZE P" if "OUTPUT_SIZE P \<noteq> 0"
  proof -
    have lo: "length (output_bias P oacc) = OUTPUT_SIZE P"
      using fold_upd_upt [of "\<lambda>i x. x + b2_int32 P ! i" "OUTPUT_SIZE P" oacc] len(3)
      by (simp add: output_bias_def oacc_def iu cpu_mv_u8_length)
    with that have "output_bias P oacc \<noteq> []" by auto
    from argmax_fold_inv [of "output_bias P oacc" "OUTPUT_SIZE P - 1"] that
    show ?thesis unfolding k_def argmax_def by simp
  qed
  with c i show ?thesis by blast
qed

theorem infer_imc_agrees_with_cpu_witness:
  "0 <s H_DIV tiny_params \<and> wf_statics tiny_params (init_statics tiny_params) \<and>
   (\<exists>k s. infer_cpu tiny_params [10, 7] (init_statics tiny_params) = Some (k, s) \<and>
      (\<exists>d'. infer_imc tiny_params [10, 7] (init_statics tiny_params, imc_reset) = Some (k, s, d')))"
proof -
  have h: "0 <s H_DIV tiny_params" "wf_statics tiny_params (init_statics tiny_params)"
    by (simp_all add: tiny_params_def word_sless_alt wf_statics_def init_statics_def)
  from infer_imc_agrees_with_cpu [OF h(1) h(2) h(2), of "[10, 7]" imc_reset] h
  show ?thesis by blast
qed

section \<open>The observer on synthetic traces\<close>

lemma received_char: "char_of (unat ((of_nat (of_char c) :: u32) AND 0xFF)) = c"
proof -
  have m: "(0xFF :: u32) = mask 8" by (simp add: mask_eq_exp_minus_1)
  have "(of_char c :: nat) < 256" by (rule nat_of_char_less_256)
  also have "(256 :: nat) < 2 ^ 32" by simp
  finally have k: "(of_char c :: nat) < 2 ^ 32" .
  have "unat ((of_nat (of_char c) :: u32) AND mask 8) = take_bit 8 (unat (of_nat (of_char c) :: u32))"
    by (simp add: unsigned_take_bit_eq flip: take_bit_eq_mask)
  also have "unat (of_nat (of_char c) :: u32) = of_char c"
    using k by (simp add: unat_of_nat take_bit_nat_eq_self del: of_nat_of_char)
  finally show ?thesis unfolding m by (simp add: char_of_take_bit_eq del: of_nat_of_char)
qed

lemma observe_cycle_idle:
  "observe_cycle c idle ob = ob\<lparr>last_uart_write := False\<rparr>"
  by (simp add: observe_cycle_def idle_def Let_def)

lemma observe_idles:
  "c + n \<le> max_cycles \<Longrightarrow> \<not> last_uart_write ob \<Longrightarrow>
   observe (replicate n idle @ rest) c ob = observe rest (c + n) ob"
proof (induction n arbitrary: c)
  case 0
  show ?case by simp
next
  case (Suc n)
  from Suc.prems(2) have e: "observe_cycle c idle ob = ob"
    by (cases ob) (simp add: observe_cycle_idle)
  from Suc.prems(1) have "c < max_cycles" "Suc c + n \<le> max_cycles" by simp_all
  with Suc.IH [of "Suc c"] Suc.prems(2) show ?case by (simp add: e)
qed

lemma observe_store:
  assumes "c + 2 \<le> max_cycles" "\<not> last_uart_write ob"
  shows "observe (uart_store ch # idle # rest) c ob = observe rest (c + 2)
     (if ch = CHR 0x0A then (end_of_line c (ob\<lparr>current_line := current_line ob @ [ch]\<rparr>))
      else ob\<lparr>current_line := current_line ob @ [ch]\<rparr>)"
proof -
  have 1: "observe_cycle c (uart_store ch) ob =
      (if ch = CHR 0x0A then (end_of_line c (ob\<lparr>current_line := current_line ob @ [ch]\<rparr>))
      else ob\<lparr>current_line := current_line ob @ [ch]\<rparr>) \<lparr>last_uart_write := True\<rparr>"
    using assms(2) received_char [of ch]
    by (simp add: observe_cycle_def uart_store_def Let_def del: of_nat_of_char)
  have 2: "observe_cycle c' idle (x\<lparr>last_uart_write := True\<rparr>) = x" if "\<not> last_uart_write x" for x c'
    using that by (simp add: observe_cycle_idle)
  have 3: "\<not> last_uart_write (if ch = CHR 0x0A then (end_of_line c (ob\<lparr>current_line := current_line ob @ [ch]\<rparr>))
      else ob\<lparr>current_line := current_line ob @ [ch]\<rparr>)"
    using assms(2) by (simp add: end_of_line_def Let_def split: option.splits)
  from assms(1) have "c < max_cycles" "Suc c < max_cycles" by simp_all
  then show ?thesis by (simp add: 1 2 [OF 3])
qed

lemma observe_transmit:
  assumes "CHR 0x0A \<notin> set s"
  shows "c + 2 * length s \<le> max_cycles \<Longrightarrow> \<not> last_uart_write ob \<Longrightarrow>
   observe (transmit s @ rest) c ob =
     observe rest (c + 2 * length s) (ob\<lparr>current_line := current_line ob @ s\<rparr>)"
  using assms
proof (induction s arbitrary: c ob)
  case Nil
  then show ?case by (simp add: transmit_def)
next
  case (Cons ch s)
  have t: "transmit (ch # s) @ rest = uart_store ch # idle # (transmit s @ rest)"
    by (simp add: transmit_def)
  from Cons.prems have c2: "c + 2 \<le> max_cycles" and ne: "ch \<noteq> CHR 0x0A"
    and ns: "CHR 0x0A \<notin> set s" by auto
  have st: "observe (uart_store ch # idle # (transmit s @ rest)) c ob =
      observe (transmit s @ rest) (c + 2) (ob\<lparr>current_line := current_line ob @ [ch]\<rparr>)"
    using observe_store [OF c2 Cons.prems(2), of ch "transmit s @ rest"] ne by simp
  have "observe (transmit s @ rest) (c + 2) (ob\<lparr>current_line := current_line ob @ [ch]\<rparr>) =
      observe rest (c + 2 + 2 * length s)
        (ob\<lparr>current_line := current_line ob @ [ch]\<rparr>\<lparr>current_line :=
            current_line (ob\<lparr>current_line := current_line ob @ [ch]\<rparr>) @ s\<rparr>)"
    by (rule Cons.IH) (use Cons.prems ns in simp_all)
  then show ?case unfolding t st by simp
qed

lemma observe_transmit_line:
  assumes "CHR 0x0A \<notin> set s" "c + 2 * length s + 2 \<le> max_cycles" "\<not> last_uart_write ob"
  shows "observe (transmit (s @ [CHR 0x0A]) @ rest) c ob =
     observe rest (c + 2 * length s + 2)
       (end_of_line (c + 2 * length s) (ob\<lparr>current_line := current_line ob @ s @ [CHR 0x0A]\<rparr>))"
proof -
  have t: "transmit (s @ [CHR 0x0A]) @ rest = transmit s @ (uart_store (CHR 0x0A) # idle # rest)"
    by (simp add: transmit_def)
  have 1: "observe (transmit s @ (uart_store (CHR 0x0A) # idle # rest)) c ob =
     observe (uart_store (CHR 0x0A) # idle # rest) (c + 2 * length s) (ob\<lparr>current_line := current_line ob @ s\<rparr>)"
    by (rule observe_transmit) (use assms in simp_all)
  have 2: "observe (uart_store (CHR 0x0A) # idle # rest) (c + 2 * length s) (ob\<lparr>current_line := current_line ob @ s\<rparr>)
     = observe rest (c + 2 * length s + 2)
       (end_of_line (c + 2 * length s) (ob\<lparr>current_line := current_line ob @ s @ [CHR 0x0A]\<rparr>))"
    using observe_store [of "c + 2 * length s" "ob\<lparr>current_line := current_line ob @ s\<rparr>" "CHR 0x0A" rest]
      assms by simp
  show ?thesis unfolding t 1 2 ..
qed

lemma max_cycles_ge: "n \<le> 20000000 \<Longrightarrow> n \<le> max_cycles"
  by (simp add: max_cycles_def)

lemma end_of_line_start_layer1:
  "end_of_line c \<lparr>last_uart_write = False, current_line = ''@@START_LAYER1'' @ [CHR 0x0A], markers = m\<rparr> =
     \<lparr>last_uart_write = False, current_line = [], markers = m(''START_LAYER1'' \<mapsto> of_nat c)\<rparr>"
  by (simp add: end_of_line_def marker_name_def)

lemma end_of_line_end_layer1:
  "end_of_line c \<lparr>last_uart_write = False, current_line = ''@@END_LAYER1'' @ [CHR 0x0A], markers = m\<rparr> =
     \<lparr>last_uart_write = False, current_line = [], markers = m(''END_LAYER1'' \<mapsto> of_nat c)\<rparr>"
  by (simp add: end_of_line_def marker_name_def)

lemma observe_start_only:
  "observe (start_only_trace @ rest) 0 observer_start =
     observe rest 102 \<lparr>last_uart_write = False, current_line = [],
        markers = [''START_LAYER1'' \<mapsto> 100]\<rparr>"
proof -
  have 1: "observe (replicate 72 idle @ (transmit (''@@START_LAYER1'' @ [CHR 0x0A]) @ rest)) 0 observer_start =
      observe (transmit (''@@START_LAYER1'' @ [CHR 0x0A]) @ rest) (0 + 72) observer_start"
    by (rule observe_idles) (simp_all add: max_cycles_def observer_start_def)
  have 2: "observe (transmit (''@@START_LAYER1'' @ [CHR 0x0A]) @ rest) (0 + 72) observer_start =
      observe rest (0 + 72 + 2 * length ''@@START_LAYER1'' + 2)
        (end_of_line (0 + 72 + 2 * length ''@@START_LAYER1'')
           (observer_start\<lparr>current_line := current_line observer_start @ ''@@START_LAYER1'' @ [CHR 0x0A]\<rparr>))"
    by (rule observe_transmit_line) (simp_all add: max_cycles_def observer_start_def)
  have 3: "observer_start\<lparr>current_line := current_line observer_start @ ''@@START_LAYER1'' @ [CHR 0x0A]\<rparr>
      = \<lparr>last_uart_write = False, current_line = ''@@START_LAYER1'' @ [CHR 0x0A], markers = Map.empty\<rparr>"
    by (simp add: observer_start_def)
  show ?thesis
    unfolding start_only_trace_def append_assoc 1 2 3 end_of_line_start_layer1 by simp
qed

lemma observe_layer1_trace:
  "observe layer1_trace 0 observer_start =
     \<lparr>last_uart_write = False, current_line = [],
        markers = [''START_LAYER1'' \<mapsto> 100, ''END_LAYER1'' \<mapsto> 340]\<rparr>"
proof -
  define ob where "ob = \<lparr>last_uart_write = False, current_line = [],
        markers = [''START_LAYER1'' \<mapsto> (100 :: u64)]\<rparr>"
  have t: "layer1_trace = start_only_trace @
      (replicate 214 idle @ (transmit (''@@END_LAYER1'' @ [CHR 0x0A]) @ []))"
    by (simp add: layer1_trace_def start_only_trace_def)
  have 1: "observe (replicate 214 idle @ (transmit (''@@END_LAYER1'' @ [CHR 0x0A]) @ [])) 102 ob =
      observe (transmit (''@@END_LAYER1'' @ [CHR 0x0A]) @ []) (102 + 214) ob"
    by (rule observe_idles) (simp_all add: max_cycles_def ob_def)
  have 2: "observe (transmit (''@@END_LAYER1'' @ [CHR 0x0A]) @ []) (102 + 214) ob =
      observe [] (102 + 214 + 2 * length ''@@END_LAYER1'' + 2)
        (end_of_line (102 + 214 + 2 * length ''@@END_LAYER1'')
           (ob\<lparr>current_line := current_line ob @ ''@@END_LAYER1'' @ [CHR 0x0A]\<rparr>))"
    by (rule observe_transmit_line) (simp_all add: max_cycles_def ob_def)
  have 3: "ob\<lparr>current_line := current_line ob @ ''@@END_LAYER1'' @ [CHR 0x0A]\<rparr>
      = \<lparr>last_uart_write = False, current_line = ''@@END_LAYER1'' @ [CHR 0x0A],
          markers = [''START_LAYER1'' \<mapsto> (100 :: u64)]\<rparr>"
    by (simp add: ob_def)
  show ?thesis
    unfolding t observe_start_only ob_def [symmetric] 1 2 3 end_of_line_end_layer1 by simp
qed

lemma calc_diff_present:
  "m start_key = Some s \<Longrightarrow> m end_key = Some e \<Longrightarrow>
   calc_diff m name start_key end_key =
     (pad_right 20 name @ '' '' @ pad_left 12 (fmt_lu (e - s)) @ '' cycles'' @ [CHR 0x0A], e - s)"
  by (simp add: calc_diff_def Let_def)

lemma calc_diff_absent:
  "m start_key = None \<or> m end_key = None \<Longrightarrow> calc_diff m name start_key end_key = ([], 0)"
  by (auto simp: calc_diff_def split: option.splits)

lemma snd_calc_diff_spec:
  "snd (calc_diff m name (''START_'' @ p) (''END_'' @ p)) = phase_duration_spec m p"
  by (auto simp: calc_diff_def phase_duration_spec_def Let_def dom_def split: option.splits)

lemma breakdown_spec:
  "map snd (breakdown m) =
     map (phase_duration_spec m) [''PREPARE'', ''LAYER1'', ''RELU'', ''LAYER2'', ''ARGMAX'', ''TOTAL'']"
  using snd_calc_diff_spec [of m _ "''PREPARE''"] snd_calc_diff_spec [of m _ "''LAYER1''"]
    snd_calc_diff_spec [of m _ "''RELU''"] snd_calc_diff_spec [of m _ "''LAYER2''"]
    snd_calc_diff_spec [of m _ "''ARGMAX''"] snd_calc_diff_spec [of m _ "''TOTAL''"]
  by (simp add: breakdown_def)

section \<open>Reconstruction of phase durations\<close>

text \<open>
  C6. \<open>calc_diff\<close> returns \<open>END - START\<close> (64-bit unsigned subtraction, the exact
  difference when the start is not after the end) and prints a line when both keys are
  in the marker map; when either is absent it prints nothing and returns 0. The six
  values \<open>main\<close> computes are the durations, in the spec's sense, of \<open>PREPARE\<close>,
  \<open>LAYER1\<close>, \<open>RELU\<close>, \<open>LAYER2\<close>, \<open>ARGMAX\<close> and \<open>TOTAL\<close>. On a bus trace whose
  \<^verbatim>\<open>@@START_LAYER1\<close> line ends in cycle 100 and whose \<^verbatim>\<open>@@END_LAYER1\<close> line ends in
  cycle 340, the observer records 100 and 340 and the \<open>LAYER1\<close> duration is 240, all
  other phases 0; on the trace that stops before \<^verbatim>\<open>@@END_LAYER1\<close>, every duration
  is 0 and nothing is printed for \<open>LAYER1\<close>.
\<close>

theorem phase_duration_reconstruction:
  "(\<forall>s e. m start_key = Some s \<and> m end_key = Some e \<longrightarrow>
       snd (calc_diff m name start_key end_key) = e - s \<and>
       fst (calc_diff m name start_key end_key) \<noteq> [] \<and>
       (s \<le> e \<longrightarrow> unat (snd (calc_diff m name start_key end_key)) = unat e - unat s)) \<and>
   (m start_key = None \<or> m end_key = None \<longrightarrow> calc_diff m name start_key end_key = ([], 0)) \<and>
   map snd (breakdown m) =
     map (phase_duration_spec m) [''PREPARE'', ''LAYER1'', ''RELU'', ''LAYER2'', ''ARGMAX'', ''TOTAL''] \<and>
   markers (observe layer1_trace 0 observer_start) ''START_LAYER1'' = Some 100 \<and>
   markers (observe layer1_trace 0 observer_start) ''END_LAYER1'' = Some 340 \<and>
   map snd (breakdown (markers (observe layer1_trace 0 observer_start))) = [0, 240, 0, 0, 0, 0] \<and>
   markers (observe start_only_trace 0 observer_start) ''START_LAYER1'' = Some 100 \<and>
   markers (observe start_only_trace 0 observer_start) ''END_LAYER1'' = None \<and>
   breakdown (markers (observe start_only_trace 0 observer_start)) ! 1 = ([], 0) \<and>
   map snd (breakdown (markers (observe start_only_trace 0 observer_start))) = [0, 0, 0, 0, 0, 0]"
proof -
  have a: "snd (calc_diff m name start_key end_key) = e - s \<and>
       fst (calc_diff m name start_key end_key) \<noteq> [] \<and>
       (s \<le> e \<longrightarrow> unat (snd (calc_diff m name start_key end_key)) = unat e - unat s)"
    if "m start_key = Some s \<and> m end_key = Some e" for s e
    using that by (simp add: calc_diff_present unat_sub)
  have b: "m start_key = None \<or> m end_key = None \<longrightarrow> calc_diff m name start_key end_key = ([], 0)"
    using calc_diff_absent by blast
  have so: "observe start_only_trace 0 observer_start =
      \<lparr>last_uart_write = False, current_line = [], markers = [''START_LAYER1'' \<mapsto> 100]\<rparr>"
    using observe_start_only [of "[]"] by simp
  have c: "map snd (breakdown (markers (observe layer1_trace 0 observer_start))) = [0, 240, 0, 0, 0, 0]"
    unfolding breakdown_spec observe_layer1_trace by (simp add: phase_duration_spec_def)
  have d: "map snd (breakdown (markers (observe start_only_trace 0 observer_start))) = [0, 0, 0, 0, 0, 0]"
    unfolding breakdown_spec so by (simp add: phase_duration_spec_def)
  have e: "breakdown (markers (observe start_only_trace 0 observer_start)) ! 1 = ([], 0)"
    unfolding so by (simp add: breakdown_def calc_diff_def)
  have A: "\<forall>s e. m start_key = Some s \<and> m end_key = Some e \<longrightarrow>
       snd (calc_diff m name start_key end_key) = e - s \<and>
       fst (calc_diff m name start_key end_key) \<noteq> [] \<and>
       (s \<le> e \<longrightarrow> unat (snd (calc_diff m name start_key end_key)) = unat e - unat s)"
    using a by blast
  have bs: "map snd (breakdown m) =
     map (phase_duration_spec m) [''PREPARE'', ''LAYER1'', ''RELU'', ''LAYER2'', ''ARGMAX'', ''TOTAL'']"
    by (rule breakdown_spec)
  have m1: "markers (observe layer1_trace 0 observer_start) ''START_LAYER1'' = Some 100"
    and m2: "markers (observe layer1_trace 0 observer_start) ''END_LAYER1'' = Some 340"
    unfolding observe_layer1_trace by simp_all
  have m3: "markers (observe start_only_trace 0 observer_start) ''START_LAYER1'' = Some 100"
    and m4: "markers (observe start_only_trace 0 observer_start) ''END_LAYER1'' = None"
    unfolding so by simp_all
  show ?thesis by (intro conjI; fact)
qed

theorem phase_duration_reconstruction_witness:
  "[''START_X'' \<mapsto> (5 :: u64), ''END_X'' \<mapsto> 9] ''START_X'' = Some 5 \<and>
   [''START_X'' \<mapsto> (5 :: u64), ''END_X'' \<mapsto> 9] ''END_X'' = Some 9 \<and> (5 :: u64) \<le> 9 \<and>
   snd (calc_diff [''START_X'' \<mapsto> 5, ''END_X'' \<mapsto> 9] ''X:'' ''START_X'' ''END_X'') = 4 \<and>
   [''START_X'' \<mapsto> (5 :: u64)] ''END_X'' = None \<and>
   calc_diff [''START_X'' \<mapsto> 5] ''X:'' ''START_X'' ''END_X'' = ([], 0)"
proof -
  have h: "[''START_X'' \<mapsto> (5 :: u64), ''END_X'' \<mapsto> 9] ''START_X'' = Some 5"
    "[''START_X'' \<mapsto> (5 :: u64), ''END_X'' \<mapsto> 9] ''END_X'' = Some 9" "(5 :: u64) \<le> 9"
    "[''START_X'' \<mapsto> (5 :: u64)] ''END_X'' = None"
    by simp_all
  from phase_duration_reconstruction [of "[''START_X'' \<mapsto> 5, ''END_X'' \<mapsto> 9]" "''START_X''" "''END_X''" "''X:''"]
  have "snd (calc_diff [''START_X'' \<mapsto> 5, ''END_X'' \<mapsto> 9] ''X:'' ''START_X'' ''END_X'') = 9 - 5"
    using h(1,2) by blast
  moreover from phase_duration_reconstruction [of "[''START_X'' \<mapsto> 5]" "''START_X''" "''END_X''" "''X:''"]
  have "calc_diff [''START_X'' \<mapsto> 5] ''X:'' ''START_X'' ''END_X'' = ([], 0)"
    using h(4) by blast
  ultimately show ?thesis using h by simp
qed

section \<open>What the harness prints\<close>

lemma digit_char_not_at: "k < 10 \<Longrightarrow> digit_char k \<noteq> CHR ''@''"
proof
  assume k: "k < 10" and "digit_char k = CHR ''@''"
  then have "(of_char (digit_char k) :: nat) = of_char CHR ''@''" by (simp only:)
  with k show False by (simp add: digit_char_def)
qed

lemma dec_nat_no_at: "CHR ''@'' \<notin> set (dec_nat n)"
proof (induction n rule: dec_nat.induct)
  case (1 n)
  show ?case
  proof (cases "n < 10")
    case True
    then show ?thesis
      by (subst dec_nat.simps) (simp add: digit_char_not_at [symmetric])
  next
    case False
    have "n mod 10 < 10" by simp
    from digit_char_not_at [OF this] "1.IH" [OF False] False show ?thesis
      by (subst dec_nat.simps) auto
  qed
qed

lemma fmt_no_at:
  "CHR ''@'' \<notin> set (fmt_u x)" "CHR ''@'' \<notin> set (fmt_d y)"
  "CHR ''@'' \<notin> set s \<Longrightarrow> CHR ''@'' \<notin> set (pad_right w s)"
  by (simp_all add: fmt_u_def fmt_d_def pad_right_def dec_nat_no_at)

lemma banner_no_at: "CHR ''@'' \<notin> set banner"
  by (simp add: banner_def)

lemma table_header_no_at: "CHR ''@'' \<notin> set table_header"
  by (simp add: table_header_def pad_right_def)

lemma table_row_no_at: "CHR ''@'' \<notin> set (table_row d label c1 c2 m)"
  by (simp add: table_row_def fmt_no_at)

lemma results_text_no_at: "CHR ''@'' \<notin> set (results_text b)"
  by (simp add: results_text_def fmt_no_at)

lemma infer_cpu_total: "H_DIV P \<noteq> 0 \<Longrightarrow> \<exists>r. infer_cpu P img st = Some r"
proof -
  assume nz: "H_DIV P \<noteq> 0"
  from hidden_layer_post_upto [OF nz, of "cpu_mv_u8 (w1_int8 P) img (hidden_acc st)
          (HIDDEN_SIZE P) (INPUT_SIZE P)" "b1_int32 P" "HIDDEN_SIZE P" "hidden_act st"]
  obtain hact where "hidden_layer_post P (cpu_mv_u8 (w1_int8 P) img (hidden_acc st)
          (HIDDEN_SIZE P) (INPUT_SIZE P)) (hidden_act st) = Some hact"
    unfolding hidden_layer_post_def by blast
  then show ?thesis by (simp add: infer_cpu_def Let_def)
qed

lemma infer_imc_total: "H_DIV P \<noteq> 0 \<Longrightarrow> \<exists>r. infer_imc P img s = Some r"
proof -
  assume nz: "H_DIV P \<noteq> 0"
  obtain st d where s: "s = (st, d)" by (cases s)
  from hidden_layer_post_upto [OF nz, of "fst (imc_layer_execution (w1_int8 P) img (hidden_acc st)
          (HIDDEN_SIZE P) (INPUT_SIZE P) d)" "b1_int32 P" "HIDDEN_SIZE P" "hidden_act st"]
  obtain hact where "hidden_layer_post P (fst (imc_layer_execution (w1_int8 P) img (hidden_acc st)
          (HIDDEN_SIZE P) (INPUT_SIZE P) d)) (hidden_act st) = Some hact"
    unfolding hidden_layer_post_def by blast
  then show ?thesis unfolding s by (simp add: infer_imc_def split_beta Let_def)
qed

lemma bench_image_printed:
  assumes "H_DIV P \<noteq> 0"
  shows "\<exists>b' row. bench_image P clock d b = Some b' \<and> printed b' = printed b @ row \<and>
     CHR ''@'' \<notin> set row"
proof -
  obtain pc m1 where c: "infer_cpu P (test_images P ! d) (mem b) = Some (pc, m1)"
    using infer_cpu_total [OF assms, of "test_images P ! d" "mem b"] by (cases) auto
  obtain pi m2 dv where i: "infer_imc P (test_images P ! d) (m1, dev b) = Some (pi, m2, dv)"
    using infer_imc_total [OF assms, of "test_images P ! d" "(m1, dev b)"] by (cases) auto
  show ?thesis
    by (simp add: bench_image_def read_cycles_def Let_def split_beta c i table_row_no_at)
qed

lemma bench_loop_printed:
  "H_DIV P \<noteq> 0 \<Longrightarrow>
   \<exists>b' rows. bench_loop P clock d b = Some b' \<and> printed b' = printed b @ rows \<and>
     CHR ''@'' \<notin> set rows"
proof (induction P clock d b rule: bench_loop.induct)
  case (1 P clock d b)
  note assms = "1.prems"
  show ?case
  proof (cases "d < NUM_TEST_IMAGES P")
    case False
    then have "bench_loop P clock d b = Some b" by (subst bench_loop.simps) simp
    then show ?thesis by simp
  next
    case True
    from bench_image_printed [OF assms, of clock d b]
    obtain b1 row where b1: "bench_image P clock d b = Some b1"
      and p1: "printed b1 = printed b @ row" and r1: "CHR ''@'' \<notin> set row"
      by blast
    from "1.IH" [OF True b1 assms]
    obtain b' rows where b': "bench_loop P clock (Suc d) b1 = Some b'"
      and p': "printed b' = printed b1 @ rows" and r': "CHR ''@'' \<notin> set rows"
      by blast
    have "bench_loop P clock d b = Some b'"
      using True b1 b' by (subst bench_loop.simps) simp
    moreover have "printed b' = printed b @ (row @ rows)" using p1 p' by simp
    moreover have "CHR ''@'' \<notin> set (row @ rows)" using r1 r' by simp
    ultimately show ?thesis by blast
  qed
qed

lemma hello_main_no_at:
  assumes "H_DIV P \<noteq> 0"
  shows "\<exists>out. hello_main P clock = Some out \<and> CHR ''@'' \<notin> set out"
proof -
  from bench_loop_printed [OF assms, of clock 0 "bench_start P"]
  obtain b' rows where b': "bench_loop P clock 0 (bench_start P) = Some b'"
    and p': "printed b' = printed (bench_start P) @ rows" and r': "CHR ''@'' \<notin> set rows"
    by blast
  have "hello_main P clock = Some (printed b' @ results_text b')"
    by (simp add: hello_main_def b')
  moreover have "CHR ''@'' \<notin> set (printed b' @ results_text b')"
    using r' by (simp add: p' bench_start_def banner_no_at table_header_no_at results_text_no_at)
  ultimately show ?thesis by blast
qed

lemma find_str_None:
  assumes "needle \<noteq> []" "hd needle \<notin> set hay"
  shows "find_str needle hay = None"
  using assms(2)
proof (induction hay)
  case Nil
  with assms(1) show ?case by simp
next
  case (Cons c cs)
  have "take (length needle) (c # cs) \<noteq> needle"
  proof
    assume "take (length needle) (c # cs) = needle"
    with assms(1) have "hd needle = c" by (cases needle) auto
    with Cons.prems show False by simp
  qed
  with Cons show ?case by simp
qed

lemma end_of_line_no_at:
  assumes "CHR ''@'' \<notin> set (current_line ob)"
  shows "end_of_line c ob = ob\<lparr>current_line := []\<rparr>"
proof -
  have "find_str ''@@START_'' (current_line ob) = None" "find_str ''@@END_'' (current_line ob) = None"
    by (rule find_str_None; use assms in simp)+
  then show ?thesis by (simp add: end_of_line_def Let_def)
qed

lemma observe_transmit_no_at:
  "CHR ''@'' \<notin> set s \<Longrightarrow> CHR ''@'' \<notin> set (current_line ob) \<Longrightarrow> \<not> last_uart_write ob \<Longrightarrow>
   c + 2 * length s \<le> max_cycles \<Longrightarrow>
   markers (observe (transmit s) c ob) = markers ob"
proof (induction s arbitrary: c ob)
  case Nil
  show ?case by (simp add: transmit_def)
next
  case (Cons ch s)
  define ob' where "ob' = (if ch = CHR 0x0A
      then end_of_line c (ob\<lparr>current_line := current_line ob @ [ch]\<rparr>)
      else ob\<lparr>current_line := current_line ob @ [ch]\<rparr>)"
  have t: "transmit (ch # s) = uart_store ch # idle # transmit s"
    by (simp add: transmit_def)
  from Cons.prems have c2: "c + 2 \<le> max_cycles" "c + 2 + 2 * length s \<le> max_cycles" by simp_all
  have st: "observe (transmit (ch # s)) c ob = observe (transmit s) (c + 2) ob'"
    unfolding t ob'_def by (rule observe_store [OF c2(1) Cons.prems(3)])
  have na: "CHR ''@'' \<notin> set (current_line ob @ [ch])" using Cons.prems by auto
  have e: "end_of_line c (ob\<lparr>current_line := current_line ob @ [ch]\<rparr>) =
      ob\<lparr>current_line := current_line ob @ [ch]\<rparr>\<lparr>current_line := []\<rparr>"
    by (rule end_of_line_no_at) (use na in simp)
  have ob': "markers ob' = markers ob" "CHR ''@'' \<notin> set (current_line ob')" "\<not> last_uart_write ob'"
    unfolding ob'_def e using na Cons.prems(3) by simp_all
  have "markers (observe (transmit s) (c + 2) ob') = markers ob'"
    by (rule Cons.IH) (use Cons.prems ob' c2 in simp_all)
  then show ?case unfolding st ob'(1) .
qed

text \<open>
  C5, as amended. On every benchmark run with a non-zero divisor, \<^verbatim>\<open>main\<close> of \<^verbatim>\<open>hello.c\<close>
  prints its banner, one table row per test image with the cycle counts it measured
  itself, and the results, and that output contains no \<^verbatim>\<open>@\<close> character: no line of it
  contains \<^verbatim>\<open>@@START_\<close> or \<^verbatim>\<open>@@END_\<close>. The observer that receives this output
  (one store per character, an idle cycle after each, within the cycle budget) records
  no marker and reports every phase as unmeasured.
\<close>

theorem hello_main_prints_no_marker:
  assumes "H_DIV P \<noteq> 0"
  shows "\<exists>out. hello_main P clock = Some out \<and> CHR ''@'' \<notin> set out \<and>
     find_str ''@@START_'' out = None \<and> find_str ''@@END_'' out = None \<and>
     (2 * length out \<le> max_cycles \<longrightarrow>
        markers (observe (transmit out) 0 observer_start) = Map.empty \<and>
        map snd (breakdown (markers (observe (transmit out) 0 observer_start))) = [0, 0, 0, 0, 0, 0])"
proof -
  from hello_main_no_at [OF assms, of clock]
  obtain out where o: "hello_main P clock = Some out" and na: "CHR ''@'' \<notin> set out" by blast
  have f: "find_str ''@@START_'' out = None" "find_str ''@@END_'' out = None"
    by (rule find_str_None; use na in simp)+
  have m: "markers (observe (transmit out) 0 observer_start) = Map.empty"
    if "2 * length out \<le> max_cycles"
    using observe_transmit_no_at [OF na, of observer_start 0] that
    by (simp add: observer_start_def)
  have "map snd (breakdown Map.empty) = [0, 0, 0, 0, 0, 0]"
    by (simp add: breakdown_def calc_diff_def)
  with o na f m show ?thesis by simp
qed

section \<open>The run of the two-class network\<close>

lemma tiny_fields:
  "INPUT_SIZE tiny_params = 2" "HIDDEN_SIZE tiny_params = 1" "OUTPUT_SIZE tiny_params = 2"
  "H_DIV tiny_params = 4" "w1_int8 tiny_params = [3, - 1]" "b1_int32 tiny_params = [5]"
  "w2_int8 tiny_params = [2, - 3]" "b2_int32 tiny_params = [1, 0]"
  "NUM_TEST_IMAGES tiny_params = 1" "test_images tiny_params = [[10, 7]]"
  "test_labels tiny_params = [0]"
  by (simp_all add: tiny_params_def)

lemma tiny_layer1: "cpu_mv_u8 [3, - 1] [10, 7] [x] 1 2 = [23]"
  by (simp add: cpu_mv_u8_def cpu_row_u8_def upt_rec)

lemma tiny_hidden: "hidden_layer_post tiny_params [23] [x] = Some [7]"
proof -
  have "sint (23 + 5 :: i32) = 28" "sint (4 :: i32) = 4" by simp_all
  then have "post_quotient 4 23 5 = 7"
    unfolding post_quotient_def by (simp add: signed_divide_int_def)
  then have "hidden_val 4 23 5 = 7" by (simp add: hidden_val_def)
  then show ?thesis
    using hidden_layer_post_Some [of tiny_params "[x]" "[23]"] by (simp add: tiny_fields)
qed

lemma tiny_layer2_u8: "cpu_mv_u8 [2, - 3] [7] [x, y] 2 1 = [14, - 21]"
  by (simp add: cpu_mv_u8_def cpu_row_u8_def upt_rec)

lemma tiny_layer2_i8: "cpu_mv_i8 [2, - 3] [7] [x, y] 2 1 = [14, - 21]"
  by (simp add: cpu_mv_i8_def cpu_row_i8_def upt_rec)

lemma tiny_scores: "output_bias tiny_params [14, - 21] = [15, - 21]"
  by (simp add: output_bias_def tiny_fields upt_rec)

lemma tiny_class: "argmax [15, - 21] 2 = 0"
  by (simp add: argmax_def argmax_step_def upt_rec word_sless_alt)

lemma length1E: "length xs = 1 \<Longrightarrow> \<exists>a. xs = [a]"
  by (cases xs) auto

lemma length2E: "length xs = 2 \<Longrightarrow> \<exists>a b. xs = [a, b]"
proof -
  assume l: "length xs = 2"
  then obtain a ys where xs: "xs = a # ys" by (cases xs) auto
  with l obtain b where "ys = [b]" by (cases ys) auto
  with xs show ?thesis by blast
qed

lemma tiny_infer_cpu:
  assumes "wf_statics tiny_params st"
  shows "infer_cpu tiny_params [10, 7] st = Some (0, tiny_result)"
proof -
  from assms have "length (hidden_acc st) = 1" "length (hidden_act st) = 1"
    "length (output_acc st) = 2"
    unfolding wf_statics_def tiny_fields by simp_all
  then obtain a b c d where st: "hidden_acc st = [a]" "hidden_act st = [b]" "output_acc st = [c, d]"
    using length1E [of "hidden_acc st"] length1E [of "hidden_act st"] length2E [of "output_acc st"]
    by blast
  show ?thesis
    unfolding infer_cpu_def Let_def tiny_fields st tiny_layer1 tiny_hidden option.case
      tiny_layer2_i8 tiny_scores tiny_class tiny_result_def ..
qed

lemma tiny_infer_imc:
  assumes "wf_statics tiny_params st"
  shows "\<exists>d'. infer_imc tiny_params [10, 7] (st, d) = Some (0, tiny_result, d')"
proof -
  from assms have "length (hidden_acc st) = 1" "length (hidden_act st) = 1"
    "length (output_acc st) = 2"
    unfolding wf_statics_def tiny_fields by simp_all
  then obtain a b c e where st: "hidden_acc st = [a]" "hidden_act st = [b]" "output_acc st = [c, e]"
    using length1E [of "hidden_acc st"] length1E [of "hidden_act st"] length2E [of "output_acc st"]
    by blast
  have 1: "fst (imc_layer_execution (w1_int8 tiny_params) [10, 7] (hidden_acc st)
      (HIDDEN_SIZE tiny_params) (INPUT_SIZE tiny_params) d) = [23]"
    unfolding imc_layer_execution_eq_cpu tiny_fields st by (rule tiny_layer1)
  have 2: "hidden_layer_post tiny_params [23] (hidden_act st) = Some [7]"
    unfolding st by (rule tiny_hidden)
  have 3: "fst (imc_layer_execution (w2_int8 tiny_params) [7] (output_acc st)
      (OUTPUT_SIZE tiny_params) (HIDDEN_SIZE tiny_params) d2) = [14, - 21]" for d2
    unfolding imc_layer_execution_eq_cpu tiny_fields st by (rule tiny_layer2_u8)
  have 4: "argmax [15, - 21] (OUTPUT_SIZE tiny_params) = 0"
    unfolding tiny_fields by (rule tiny_class)
  show ?thesis
    by (simp add: infer_imc_def Let_def split_beta 1 2 3 4 tiny_scores tiny_result_def)
qed

lemma wf_tiny_result: "wf_statics tiny_params tiny_result"
  by (simp add: wf_statics_def tiny_result_def tiny_fields)

lemma wf_tiny_init: "wf_statics tiny_params (init_statics tiny_params)"
  by (simp add: wf_statics_def init_statics_def tiny_fields)

lemma digit_chars:
  "digit_char 0 = CHR ''0''" "digit_char (Suc 0) = CHR ''1''" "digit_char 5 = CHR ''5''"
  by (simp_all add: digit_char_def char_of_eq_iff take_bit_eq_mod)

lemma dec_nat_examples:
  "dec_nat 0 = ''0''" "dec_nat (Suc 0) = ''1''" "dec_nat 100 = ''100''" "dec_nat 500 = ''500''"
  "dec_nat 1000 = ''1000''" "dec_nat 5000 = ''5000''"
  by (simp_all add: dec_nat.simps digit_chars)

lemma fmt_examples:
  "fmt_d 0 = ''0''" "fmt_d 1 = ''1''" "fmt_u 100 = ''100''" "fmt_u 500 = ''500''"
  "fmt_u 1000 = ''1000''" "fmt_u 5000 = ''5000''"
  by (simp_all add: fmt_d_def fmt_u_def dec_nat_examples word_sless_alt)

lemma tiny_clock_reads:
  "tiny_clock 0 = 0" "tiny_clock (Suc 0) = 1000" "tiny_clock (Suc (Suc 0)) = 4000"
  "tiny_clock (Suc (Suc (Suc 0))) = 9000"
  by (simp_all add: tiny_clock_def)

lemma tiny_row: "table_row 0 0 1000 5000 True =
    ''  0   |   0   | 1000         | 5000         | YES'' @ [CHR 0x0A]"
  by (simp add: table_row_def fmt_examples pad_right_def eval_nat_numeral)

lemma tiny_bench_image:
  "\<exists>b1. bench_image tiny_params tiny_clock 0 (bench_start tiny_params) = Some b1 \<and>
     printed b1 = banner @ table_header @ table_row 0 0 1000 5000 True \<and>
     cpu_correct b1 = 1 \<and> imc_correct b1 = 1 \<and>
     total_cpu_cycles b1 = 1000 \<and> total_imc_cycles b1 = 5000"
proof -
  from tiny_infer_imc [OF wf_tiny_result, of imc_reset]
  obtain d' where i: "infer_imc tiny_params [10, 7] (tiny_result, imc_reset) = Some (0, tiny_result, d')"
    by blast
  note c = tiny_infer_cpu [OF wf_tiny_init]
  show ?thesis
    by (simp add: bench_image_def read_cycles_def Let_def split_beta bench_start_def tiny_fields
        c i tiny_clock_reads)
qed

lemma tiny_run:
  "hello_main tiny_params tiny_clock =
     Some (banner @ table_header @ table_row 0 0 1000 5000 True @
       ''--------------------------------------------------------'' @ [CHR 0x0A] @
       [CHR 0x0A] @ ''RESULTS:'' @ [CHR 0x0A] @
       ''  CPU Accuracy: 1/10'' @ [CHR 0x0A] @
       ''  IMC Accuracy: 1/10'' @ [CHR 0x0A] @
       ''  Avg CPU Cycles: 100'' @ [CHR 0x0A] @
       ''  Avg IMC Cycles: 500'' @ [CHR 0x0A] @
       [CHR 0x0A] @ ''========================================================'' @
       [CHR 0x0A] @ [CHR 0x0A])"
proof -
  from tiny_bench_image obtain b1 where
    b1: "bench_image tiny_params tiny_clock 0 (bench_start tiny_params) = Some b1"
    and p: "printed b1 = banner @ table_header @ table_row 0 0 1000 5000 True"
    and f: "cpu_correct b1 = 1" "imc_correct b1 = 1"
      "total_cpu_cycles b1 = 1000" "total_imc_cycles b1 = 5000"
    by blast
  have l1: "bench_loop tiny_params tiny_clock (Suc 0) b1 = Some b1"
    by (subst bench_loop.simps) (simp add: tiny_fields)
  have l0: "bench_loop tiny_params tiny_clock 0 (bench_start tiny_params) = Some b1"
    by (subst bench_loop.simps) (simp add: tiny_fields b1 l1)
  have d: "(1000 :: u32) div 10 = 100" "(5000 :: u32) div 10 = 500"
    by (simp_all add: word_div_def)
  have r: "results_text b1 =
       ''--------------------------------------------------------'' @ [CHR 0x0A] @
       [CHR 0x0A] @ ''RESULTS:'' @ [CHR 0x0A] @
       ''  CPU Accuracy: 1/10'' @ [CHR 0x0A] @
       ''  IMC Accuracy: 1/10'' @ [CHR 0x0A] @
       ''  Avg CPU Cycles: 100'' @ [CHR 0x0A] @
       ''  Avg IMC Cycles: 500'' @ [CHR 0x0A] @
       [CHR 0x0A] @ ''========================================================'' @
       [CHR 0x0A] @ [CHR 0x0A]"
    by (simp add: results_text_def f d fmt_examples)
  show ?thesis unfolding hello_main_def l0 option.case p r by simp
qed

lemma tiny_run_output: "hello_main tiny_params tiny_clock = Some tiny_output"
  unfolding tiny_run tiny_output_def tiny_row by simp

lemma tiny_output_no_at: "CHR ''@'' \<notin> set tiny_output"
  by (simp add: tiny_output_def banner_no_at table_header_no_at)

lemma length_tiny_output: "length tiny_output = 534"
  by (simp add: tiny_output_def banner_def table_header_def pad_right_def)

text \<open>
  The run of \<open>tiny_params\<close> on its one test image prints exactly \<open>tiny_output\<close>, and
  \<open>tiny_output\<close> contains neither \<^verbatim>\<open>@@START_\<close> nor \<^verbatim>\<open>@@END_\<close>.
\<close>

theorem hello_main_tiny_run_has_no_marker:
  "hello_main tiny_params tiny_clock = Some tiny_output \<and>
   find_str ''@@START_'' tiny_output = None \<and> find_str ''@@END_'' tiny_output = None"
proof -
  have "find_str ''@@START_'' tiny_output = None" "find_str ''@@END_'' tiny_output = None"
    by (rule find_str_None; use tiny_output_no_at in simp)+
  with tiny_run_output show ?thesis by simp
qed

theorem hello_main_prints_no_marker_witness:
  "H_DIV tiny_params \<noteq> 0 \<and> hello_main tiny_params tiny_clock = Some tiny_output \<and>
   2 * length tiny_output \<le> max_cycles \<and>
   markers (observe (transmit tiny_output) 0 observer_start) = Map.empty"
proof -
  have h: "H_DIV tiny_params \<noteq> 0" by (simp add: tiny_params_def)
  have l: "2 * length tiny_output \<le> max_cycles"
    by (simp add: length_tiny_output max_cycles_def)
  from hello_main_prints_no_marker [OF h, of tiny_clock] l
  have "markers (observe (transmit tiny_output) 0 observer_start) = Map.empty"
    unfolding tiny_run_output by simp
  with h l tiny_run_output show ?thesis by simp
qed

end
